theory Spec2Isabelle
  imports Main "HOL-Library.Word"
begin

unbundle bit_operations_syntax

text \<open>
  A model of the sketch \<^verbatim>\<open>funciona2/mic_motorista.ino\<close>: the capture callback, the energy
  estimate, the voice activity state machine, the framing of datagrams and the CRC-16.
  The network bring-up, the reconnection and the console status are outside the model;
  the clock, the capture source and the send primitive are inputs of each step.
\<close>

section \<open>Configuration of the sketch\<close>

text \<open>
  The constants of \<^verbatim>\<open>funciona2/mic_motorista.ino\<close>, lines 10 to 28. The C type
  \<^verbatim>\<open>int\<close> of the target (a 32-bit Cortex-M4) is \<open>32 word\<close>, read as two's
  complement, where a value is counted up without bound (the two frame counters: an
  increment past the largest value wraps, as the target's addition does), and \<open>int\<close>
  where it is a size that the buffers bound.
\<close>

type_synonym sample = "16 word"

definition DEVICE_ID :: "16 word" where
  "DEVICE_ID = 1"

definition SAMPLE_RATE :: int where
  "SAMPLE_RATE = 16000"

definition BUFFER_SIZE :: int where
  "BUFFER_SIZE = 512"

definition PACKET_SIZE :: int where
  "PACKET_SIZE = 480"

definition ENERGY_THRESHOLD :: int where
  "ENERGY_THRESHOLD = 800"

definition SILENCE_FRAMES :: "32 word" where
  "SILENCE_FRAMES = 10"

definition MIN_VOICE_FRAMES :: "32 word" where
  "MIN_VOICE_FRAMES = 3"

text \<open>The packed struct \<^verbatim>\<open>AudioPacket\<close> (lines 49 to 58): the header of a datagram.\<close>

record AudioPacket =
  sequence :: "32 word"
  timestamp :: "32 word"
  device_id :: "16 word"
  sample_rate :: "16 word"
  samples_count :: "16 word"
  checksum :: "16 word"
  flags :: "8 word"
  reserved :: "8 word"

text \<open>
  One datagram as handed to the UDP socket between \<^verbatim>\<open>beginPacket\<close> and
  \<^verbatim>\<open>endPacket\<close>: the header, then the payload bytes.
\<close>

record datagram =
  header :: AudioPacket
  payload :: "8 word list"

section \<open>The checksum\<close>

text \<open>
  \<^verbatim>\<open>calculateCRC16\<close> (lines 220 to 235). The inner \<^verbatim>\<open>for\<close> loop over \<open>j\<close> is
  \<open>crc_bit_loop\<close>, counting the iterations that remain; the outer loop over the bytes
  \<open>data[0] .. data[length - 1]\<close> is \<open>crc_byte_loop\<close>. The pointer and the length are
  modelled together as the list of the \<open>length\<close> bytes the pointer refers to.
\<close>

definition crc_shift_xor :: "16 word \<Rightarrow> 16 word" where
  "crc_shift_xor crc =
     (if crc AND 0x0001 \<noteq> 0 then drop_bit 1 crc XOR 0xA001 else drop_bit 1 crc)"

fun crc_bit_loop :: "nat \<Rightarrow> 16 word \<Rightarrow> 16 word" where
  "crc_bit_loop 0 crc = crc"
| "crc_bit_loop (Suc n) crc = crc_bit_loop n (crc_shift_xor crc)"

fun crc_byte_loop :: "8 word list \<Rightarrow> 16 word \<Rightarrow> 16 word" where
  "crc_byte_loop [] crc = crc"
| "crc_byte_loop (b # data) crc = crc_byte_loop data (crc_bit_loop 8 (crc XOR ucast b))"

definition calculateCRC16 :: "8 word list \<Rightarrow> 16 word" where
  "calculateCRC16 data = crc_byte_loop data 0xFFFF"

text \<open>
  The reference the specification names: a table-driven CRC-16 with the reflected
  polynomial 0xA001 and seed 0xFFFF. The table entry of a byte is the remainder of that
  byte after eight shift/XOR steps; a byte of input costs one table lookup.
\<close>

definition crc16_table :: "8 word \<Rightarrow> 16 word" where
  "crc16_table i = crc_bit_loop 8 (ucast i)"

definition crc16_table_driven :: "8 word list \<Rightarrow> 16 word" where
  "crc16_table_driven data =
     foldl (\<lambda>crc b. drop_bit 8 crc XOR crc16_table (ucast crc XOR b)) 0xFFFF data"

section \<open>State and environment\<close>

text \<open>
  The globals of the sketch (lines 31 to 43), with the two outputs a run leaves behind:
  the datagrams handed to the UDP socket, oldest first, and the lines printed on the
  serial console that mark a decision of the state machine or a failed send.
\<close>

datatype log_line = VoiceDetected | SilenceEnd | UdpFailure

record sketch =
  audioBuffer :: "sample list"
  sendBuffer :: "sample list"
  samplesRead :: int
  audioReady :: bool
  silenceCounter :: "32 word"
  voiceCounter :: "32 word"
  isTransmitting :: bool
  lastActivityTime :: "32 word"
  packetSequence :: "32 word"
  udp_out :: "datagram list"
  serial_out :: "log_line list"

text \<open>
  What the collaborators answer during one pass of \<^verbatim>\<open>loop\<close>: the clock at line 155,
  the clock at line 198, and the result of \<^verbatim>\<open>udp.endPacket()\<close> (0 is failure). One
  pass calls \<^verbatim>\<open>sendAudioData\<close> at most once, so one answer of each kind is enough.
\<close>

record env =
  millis_vad :: "32 word"
  millis_send :: "32 word"
  udp_endPacket :: int

text \<open>
  Undefined behaviour of the C++ source is a fault of the model: a division by zero, and
  an access past the end of \<^verbatim>\<open>audioBuffer\<close>.
\<close>

datatype fault = DivisionByZero | OutOfBounds

definition init :: sketch where
  "init = \<lparr>audioBuffer = replicate (nat BUFFER_SIZE) 0,
           sendBuffer = replicate (nat (PACKET_SIZE div 2)) 0,
           samplesRead = 0, audioReady = False,
           silenceCounter = 0, voiceCounter = 0, isTransmitting = False,
           lastActivityTime = 0, packetSequence = 0,
           udp_out = [], serial_out = []\<rparr>"

section \<open>Capture\<close>

text \<open>
  \<^verbatim>\<open>PDM.read(audioBuffer, bytesAvailable)\<close> copies the pending bytes over the start of
  the sample array; the target is little-endian. A trailing odd byte overwrites the low
  half of the next sample.
\<close>

fun PDM_read :: "sample list \<Rightarrow> 8 word list \<Rightarrow> sample list" where
  "PDM_read (s # buf) (lo # hi # bytes) = (push_bit 8 (ucast hi) OR ucast lo) # PDM_read buf bytes"
| "PDM_read (s # buf) [lo] = ((s AND 0xFF00) OR ucast lo) # buf"
| "PDM_read buf [] = buf"
| "PDM_read [] bytes = []"

text \<open>
  \<^verbatim>\<open>onPDMdata\<close> (lines 132 to 139). The argument is the byte sequence pending in the
  capture source; \<^verbatim>\<open>PDM.available()\<close> is its length.
\<close>

definition onPDMdata :: "8 word list \<Rightarrow> sketch \<Rightarrow> fault + sketch" where
  "onPDMdata pdm st =
     (let bytesAvailable = int (length pdm) in
      if 0 < bytesAvailable then
        if 2 * BUFFER_SIZE < bytesAvailable then Inl OutOfBounds
        else Inr (st\<lparr>audioBuffer := PDM_read (audioBuffer st) pdm,
                      samplesRead := bytesAvailable div 2,
                      audioReady := True\<rparr>)
      else Inr st)"

section \<open>Framing\<close>

text \<open>The bytes of the sample array as \<^verbatim>\<open>(uint8_t*)sendBuffer\<close> reads them.\<close>

definition sample_bytes :: "sample \<Rightarrow> 8 word list" where
  "sample_bytes s = [ucast s, ucast (drop_bit 8 s)]"

definition buffer_bytes :: "sample list \<Rightarrow> 8 word list" where
  "buffer_bytes buf = concat (map sample_bytes buf)"

text \<open>\<^verbatim>\<open>sendAudioData\<close> (lines 194 to 218).\<close>

definition sendAudioData :: "env \<Rightarrow> bool \<Rightarrow> sketch \<Rightarrow> sketch" where
  "sendAudioData e isFinal st =
     (let st1 = st\<lparr>packetSequence := packetSequence st + 1\<rparr>;
          count = (word_of_int (min (samplesRead st1) (PACKET_SIZE div 2)) :: 16 word);
          body = take (unat count * 2) (buffer_bytes (sendBuffer st1));
          flags0 = (0 :: 8 word);
          flags1 = (if packetSequence st1 = 1 then flags0 OR 0x01 else flags0);
          flags2 = (if isFinal then flags1 OR 0x02 else flags1);
          hdr = \<lparr>sequence = packetSequence st, timestamp = millis_send e,
                 device_id = DEVICE_ID, sample_rate = word_of_int SAMPLE_RATE,
                 samples_count = count, checksum = calculateCRC16 body,
                 flags = flags2, reserved = 0\<rparr>;
          st2 = st1\<lparr>udp_out := udp_out st1 @ [\<lparr>header = hdr, payload = body\<rparr>]\<rparr>
      in if udp_endPacket e = 0 then st2\<lparr>serial_out := serial_out st2 @ [UdpFailure]\<rparr>
         else st2)"

text \<open>
  The wire image of a datagram: the eighteen bytes of the packed header, little-endian
  field by field, then the payload.
\<close>

definition le16 :: "16 word \<Rightarrow> 8 word list" where
  "le16 w = [ucast w, ucast (drop_bit 8 w)]"

definition le32 :: "32 word \<Rightarrow> 8 word list" where
  "le32 w = [ucast w, ucast (drop_bit 8 w), ucast (drop_bit 16 w), ucast (drop_bit 24 w)]"

definition header_bytes :: "AudioPacket \<Rightarrow> 8 word list" where
  "header_bytes h =
     le32 (sequence h) @ le32 (timestamp h) @ le16 (device_id h) @ le16 (sample_rate h) @
     le16 (samples_count h) @ le16 (checksum h) @ [flags h, reserved h]"

definition wire_bytes :: "datagram \<Rightarrow> 8 word list" where
  "wire_bytes d = header_bytes (header d) @ payload d"

section \<open>Voice activity detection\<close>

text \<open>
  The energy of the captured frame (lines 143 to 147): the loop over the first
  \<^verbatim>\<open>samplesRead\<close> samples accumulates in 32 bits, and the division is unsigned.
\<close>

fun energy_loop :: "sample list \<Rightarrow> 32 word \<Rightarrow> 32 word" where
  "energy_loop [] energy = energy"
| "energy_loop (s # buf) energy = energy_loop buf (energy + word_of_int \<bar>sint s\<bar>)"

definition signal_energy :: "sketch \<Rightarrow> fault + 32 word" where
  "signal_energy st =
     (if int (length (audioBuffer st)) < samplesRead st then Inl OutOfBounds
      else if samplesRead st = 0 then Inl DivisionByZero
      else Inr (energy_loop (take (nat (samplesRead st)) (audioBuffer st)) 0
                  div word_of_int (samplesRead st)))"

text \<open>The decision on one frame (lines 150 to 174).\<close>

definition vad_update :: "env \<Rightarrow> bool \<Rightarrow> sketch \<Rightarrow> sketch" where
  "vad_update e voiceDetected st =
     (if voiceDetected then
        let st1 = st\<lparr>voiceCounter := voiceCounter st + 1, silenceCounter := 0,
                     lastActivityTime := millis_vad e\<rparr>
        in if \<not> isTransmitting st1 \<and> MIN_VOICE_FRAMES \<le>s voiceCounter st1
           then st1\<lparr>isTransmitting := True, packetSequence := 0,
                    serial_out := serial_out st1 @ [VoiceDetected]\<rparr>
           else st1
      else
        let st1 = st\<lparr>silenceCounter := silenceCounter st + 1, voiceCounter := 0\<rparr>
        in if isTransmitting st1 \<and> SILENCE_FRAMES \<le>s silenceCounter st1
           then let st2 = sendAudioData e True st1
                in st2\<lparr>isTransmitting := False, serial_out := serial_out st2 @ [SilenceEnd]\<rparr>
           else st1)"

text \<open>
  The transmission of the frame (lines 177 to 191); the periodic debug print, which
  changes no state but its own timer, is left out.
\<close>

definition transmit_frame :: "env \<Rightarrow> sketch \<Rightarrow> sketch" where
  "transmit_frame e st =
     (if isTransmitting st then
        let samplesToSend = nat (min (samplesRead st) (PACKET_SIZE div 2));
            st1 = st\<lparr>sendBuffer := take samplesToSend (audioBuffer st)
                                       @ drop samplesToSend (sendBuffer st)\<rparr>
        in sendAudioData e False st1
      else st)"

text \<open>\<^verbatim>\<open>processAudioWithVAD\<close> (lines 141 to 192).\<close>

definition processAudioWithVAD :: "env \<Rightarrow> sketch \<Rightarrow> fault + sketch" where
  "processAudioWithVAD e st =
     (case signal_energy st of
        Inl f \<Rightarrow> Inl f
      | Inr energy \<Rightarrow>
          let voiceDetected = (word_of_int ENERGY_THRESHOLD < energy)
          in Inr (transmit_frame e (vad_update e voiceDetected st)))"

text \<open>
  The audio part of \<^verbatim>\<open>loop\<close> (lines 106 to 109). The reconnection to the access point
  and the periodic status print touch none of the state above.
\<close>

definition loop :: "env \<Rightarrow> sketch \<Rightarrow> fault + sketch" where
  "loop e st =
     (if audioReady st then processAudioWithVAD e (st\<lparr>audioReady := False\<rparr>) else Inr st)"

text \<open>
  A buffer-ready frame: the capture callback fires with the pending bytes, then the main
  loop makes one pass. A run is a sequence of such frames; a fault ends it.
\<close>

type_synonym frame = "8 word list \<times> env"

definition frame_step :: "frame \<Rightarrow> sketch \<Rightarrow> fault + sketch" where
  "frame_step f st =
     (case onPDMdata (fst f) st of Inl x \<Rightarrow> Inl x | Inr st1 \<Rightarrow> loop (snd f) st1)"

fun run :: "sketch \<Rightarrow> frame list \<Rightarrow> fault + sketch" where
  "run st [] = Inr st"
| "run st (f # fs) = (case frame_step f st of Inl x \<Rightarrow> Inl x | Inr st1 \<Rightarrow> run st1 fs)"

section \<open>Notions used to state the properties\<close>

text \<open>
  The whole samples that a capture delivers, and the energy and the classification that
  \<open>processAudioWithVAD\<close> computes for them (lemma \<open>signal_energy_captured\<close> below).
\<close>

fun pdm_samples :: "8 word list \<Rightarrow> sample list" where
  "pdm_samples (lo # hi # bytes) = (push_bit 8 (ucast hi) OR ucast lo) # pdm_samples bytes"
| "pdm_samples bytes = []"

definition frame_energy :: "frame \<Rightarrow> 32 word" where
  "frame_energy f =
     energy_loop (pdm_samples (fst f)) 0 div word_of_int (int (length (fst f)) div 2)"

definition voiced :: "frame \<Rightarrow> bool" where
  "voiced f = (word_of_int ENERGY_THRESHOLD < frame_energy f)"

definition silent :: "frame \<Rightarrow> bool" where
  "silent f = (\<not> voiced f)"

text \<open>
  A capture that the sketch processes without a fault: at least one whole sample, and no
  more bytes than \<^verbatim>\<open>audioBuffer\<close> holds.
\<close>

definition frame_ok :: "frame \<Rightarrow> bool" where
  "frame_ok f = (2 \<le> length (fst f) \<and> int (length (fst f)) \<le> 2 * BUFFER_SIZE)"

text \<open>The shape of the buffers between two frames.\<close>

definition buffers_ok :: "sketch \<Rightarrow> bool" where
  "buffers_ok st =
     (length (audioBuffer st) = nat BUFFER_SIZE \<and>
      length (sendBuffer st) = nat (PACKET_SIZE div 2) \<and>
      0 \<le> samplesRead st \<and> samplesRead st \<le> BUFFER_SIZE \<and>
      \<not> audioReady st)"

text \<open>
  The datagram that \<open>sendAudioData\<close> builds (lemma \<open>sendAudioData_udp_out\<close> below), and
  the two fields of a datagram that the state machine decides.
\<close>

definition built_packet :: "env \<Rightarrow> bool \<Rightarrow> sketch \<Rightarrow> datagram" where
  "built_packet e isFinal st =
     (let count = (word_of_int (min (samplesRead st) (PACKET_SIZE div 2)) :: 16 word);
          body = take (unat count * 2) (buffer_bytes (sendBuffer st))
      in \<lparr>header = \<lparr>sequence = packetSequence st, timestamp = millis_send e,
                     device_id = DEVICE_ID, sample_rate = word_of_int SAMPLE_RATE,
                     samples_count = count, checksum = calculateCRC16 body,
                     flags = (if packetSequence st = 0 then 0x01 else 0) OR
                             (if isFinal then 0x02 else 0),
                     reserved = 0\<rparr>,
           payload = body\<rparr>)"

definition info :: "datagram \<Rightarrow> 32 word \<times> 8 word" where
  "info d = (sequence (header d), flags (header d))"

text \<open>The datagrams that a step from \<open>st\<close> to \<open>st'\<close> has handed to the socket.\<close>

definition emitted :: "sketch \<Rightarrow> sketch \<Rightarrow> datagram list" where
  "emitted st st' = drop (length (udp_out st)) (udp_out st')"

definition start_flag :: "datagram \<Rightarrow> bool" where
  "start_flag d = (flags (header d) AND 0x01 \<noteq> 0)"

definition final_flag :: "datagram \<Rightarrow> bool" where
  "final_flag d = (flags (header d) AND 0x02 \<noteq> 0)"

text \<open>
  The view of the state that the state machine acts on: the transmitting flag, the two
  counters, the sequence counter, and the sequence number and flags of every datagram
  sent so far. \<open>view_step\<close> is the effect of one buffer-ready frame on the view (lemma
  \<open>frame_step_view\<close> below proves that \<open>frame_step\<close> acts so).
\<close>

record vad_view =
  tx :: bool
  vc :: "32 word"
  sc :: "32 word"
  seqno :: "32 word"
  sent :: "(32 word \<times> 8 word) list"

definition view :: "sketch \<Rightarrow> vad_view" where
  "view st = \<lparr>tx = isTransmitting st, vc = voiceCounter st, sc = silenceCounter st,
              seqno = packetSequence st,
              sent = map (\<lambda>d. (sequence (header d), flags (header d))) (udp_out st)\<rparr>"

definition view_send :: "bool \<Rightarrow> vad_view \<Rightarrow> vad_view" where
  "view_send isFinal v =
     v\<lparr>seqno := seqno v + 1,
       sent := sent v @ [(seqno v, (if seqno v + 1 = 1 then 0x01 else 0) OR
                                   (if isFinal then 0x02 else 0))]\<rparr>"

definition view_step :: "bool \<Rightarrow> vad_view \<Rightarrow> vad_view" where
  "view_step voiceDetected v =
     (let v1 =
        (if voiceDetected then
           let w = v\<lparr>vc := vc v + 1, sc := 0\<rparr>
           in if \<not> tx w \<and> MIN_VOICE_FRAMES \<le>s vc w then w\<lparr>tx := True, seqno := 0\<rparr> else w
         else
           let w = v\<lparr>sc := sc v + 1, vc := 0\<rparr>
           in if tx w \<and> SILENCE_FRAMES \<le>s sc w then (view_send True w)\<lparr>tx := False\<rparr> else w)
      in if tx v1 then view_send False v1 else v1)"

fun view_run :: "vad_view \<Rightarrow> bool list \<Rightarrow> vad_view" where
  "view_run v [] = v"
| "view_run v (b # bs) = view_run (view_step b v) bs"

text \<open>Between two frames a counter is below its threshold while it is the one awaited.\<close>

definition counters_ok :: "vad_view \<Rightarrow> bool" where
  "counters_ok v = (if tx v then sc v < SILENCE_FRAMES else vc v < MIN_VOICE_FRAMES)"

definition state_ok :: "sketch \<Rightarrow> bool" where
  "state_ok st = (buffers_ok st \<and> counters_ok (view st))"

text \<open>
  The datagrams of the utterance in progress: those sent after the last datagram that
  carries the final flag.
\<close>

definition current_utterance :: "(32 word \<times> 8 word) list \<Rightarrow> (32 word \<times> 8 word) list" where
  "current_utterance ps = rev (takeWhile (\<lambda>p. snd p AND 0x02 = 0) (rev ps))"

text \<open>
  The numbering of the datagrams sent so far: each datagram follows its predecessor by
  one, or restarts at 0 after a final datagram; the first datagram has number 0; and the
  sequence counter of a transmitting machine continues the utterance in progress.
\<close>

definition pair_follows :: "32 word \<times> 8 word \<Rightarrow> 32 word \<times> 8 word \<Rightarrow> bool" where
  "pair_follows p q = (fst q = (if snd p AND 0x02 \<noteq> 0 then 0 else fst p + 1))"

definition trace_ok :: "vad_view \<Rightarrow> bool" where
  "trace_ok v =
     (successively pair_follows (sent v) \<and>
      (sent v = [] \<or> fst (hd (sent v)) = 0) \<and>
      (if tx v
       then sent v \<noteq> [] \<and> snd (last (sent v)) AND 0x02 = 0 \<and>
            seqno v = fst (last (sent v)) + 1 \<and>
            seqno v = of_nat (length (current_utterance (sent v)))
       else current_utterance (sent v) = []))"

text \<open>
  A datagram fits when its payload is what its header declares and no longer than the
  send buffer.
\<close>

definition packet_fits :: "datagram \<Rightarrow> bool" where
  "packet_fits d =
     (unat (samples_count (header d)) \<le> 240 \<and>
      length (payload d) = 2 * unat (samples_count (header d)))"

text \<open>
  The state without the console log, and frames that differ at most in the result of the
  send primitive.
\<close>

definition quiet :: "sketch \<Rightarrow> sketch" where
  "quiet st = st\<lparr>serial_out := []\<rparr>"

definition same_inputs :: "frame \<Rightarrow> frame \<Rightarrow> bool" where
  "same_inputs f f' =
     (fst f = fst f' \<and> millis_vad (snd f) = millis_vad (snd f') \<and>
      millis_send (snd f) = millis_send (snd f'))"

text \<open>Environments and frames for the concrete scenarios.\<close>

definition env0 :: env where
  "env0 = \<lparr>millis_vad = 0, millis_send = 0, udp_endPacket = 1\<rparr>"

definition frame900 :: frame where
  "frame900 = ([0x84, 0x03], env0)"

definition frame200 :: frame where
  "frame200 = ([0xC8, 0x00], env0)"

definition armed2 :: sketch where
  "armed2 = projr (run init [frame900, frame900])"

definition quiet9 :: sketch where
  "quiet9 = projr (run init ([frame900, frame900, frame900] @ replicate 9 frame200))"

definition ended :: sketch where
  "ended = projr (run init ([frame900, frame900, frame900] @ replicate 10 frame200))"

definition scenario :: "frame list" where
  "scenario = replicate 3 frame900 @ replicate 10 frame200"

definition frame241 :: frame where
  "frame241 = (replicate 482 0x10, env0)"

definition frame512 :: frame where
  "frame512 = (replicate 1024 0x10, env0)"

text \<open>The scenarios of a send primitive that fails, and of a capture of one byte.\<close>

definition env_fail :: env where
  "env_fail = \<lparr>millis_vad = 0, millis_send = 0, udp_endPacket = 0\<rparr>"

definition talk_sent :: "frame list" where
  "talk_sent = [frame900, frame900, frame900, frame200]"

definition talk_lost :: "frame list" where
  "talk_lost = map (\<lambda>f. (fst f, env_fail)) talk_sent"


definition idle1 :: sketch where
  "idle1 = projr (run init [frame200])"

definition talk3 :: sketch where
  "talk3 = projr (run init [frame900, frame900, frame900])"

text \<open>
  A run with one utterance of more than \<open>2 ^ 32\<close> datagrams: three voiced frames and a
  silent one, then voiced and silent frames in turn, so that neither counter runs far.
\<close>

definition long_utterance :: "frame list" where
  "long_utterance =
     [frame900, frame900, frame900, frame200] @ concat (replicate 2147483647 [frame900, frame200])"

section \<open>Properties of the checksum\<close>

lemma and_one_odd: "((c::16 word) AND 0x0001 \<noteq> 0) = odd c"
  by (simp add: and_one_eq odd_iff_mod_2_eq_one)

lemma crc_shift_xor_linear:
  "crc_shift_xor (a XOR b) = crc_shift_xor a XOR crc_shift_xor b"
  unfolding crc_shift_xor_def and_one_odd
  by (auto simp: even_xor_iff drop_bit_xor xor.assoc xor.commute xor.left_commute)

lemma crc_bit_loop_linear:
  "crc_bit_loop n (a XOR b) = crc_bit_loop n a XOR crc_bit_loop n b"
  by (induction n arbitrary: a b) (simp_all add: crc_shift_xor_linear)

lemma low_bits_zero_even: "take_bit (Suc n) (crc::16 word) = 0 \<Longrightarrow> even crc"
proof -
  assume "take_bit (Suc n) crc = 0"
  then have "\<not> bit (take_bit (Suc n) crc) 0" by simp
  then show "even crc" by (simp add: bit_take_bit_iff bit_0)
qed

lemma low_bits_zero_shift:
  "take_bit (Suc n) (crc::16 word) = 0 \<Longrightarrow> take_bit n (drop_bit 1 crc) = 0"
  by (metis Suc_eq_plus1 drop_bit_of_0 take_bit_drop_bit)

text \<open>With its low \<open>n\<close> bits clear, a register only shifts during \<open>n\<close> steps.\<close>

lemma crc_bit_loop_shifts:
  "take_bit n crc = 0 \<Longrightarrow> crc_bit_loop n crc = drop_bit n crc"
proof (induction n arbitrary: crc)
  case 0
  then show ?case by simp
next
  case (Suc n)
  show ?case
    using low_bits_zero_even [OF Suc.prems] Suc.IH [OF low_bits_zero_shift [OF Suc.prems]]
    by (simp add: crc_shift_xor_def and_one_odd)
qed

lemma low_high_split: "(x::16 word) = take_bit 8 x XOR push_bit 8 (drop_bit 8 x)"
  by (rule bit_word_eqI) (auto simp: bit_simps)

lemma ucast_low_byte: "(ucast (ucast x :: 8 word) :: 16 word) = take_bit 8 x"
  by (rule bit_word_eqI) (auto simp: bit_simps)

lemma high_byte_xor_byte:
  "drop_bit 8 ((crc :: 16 word) XOR ucast (b :: 8 word)) = drop_bit 8 crc"
  by (rule bit_word_eqI) (auto simp: bit_simps dest: bit_imp_le_length)

lemma low_byte_of_high: "take_bit 8 (push_bit 8 (y :: 16 word)) = 0"
  by (simp add: push_bit_eq_mult take_bit_eq_0_iff)

lemma low_byte_xor_byte:
  "(ucast ((crc :: 16 word) XOR ucast (b :: 8 word)) :: 8 word) = ucast crc XOR b"
  by (rule bit_word_eqI) (auto simp: bit_simps)

lemma high_of_high: "drop_bit 8 (push_bit 8 (drop_bit 8 (x::16 word))) = drop_bit 8 x"
  by (rule bit_word_eqI) (auto simp: bit_simps dest: bit_imp_le_length)

text \<open>Eight steps on a register are one lookup for its low byte, and a shift of the rest.\<close>

lemma crc_byte_by_table:
  "crc_bit_loop 8 (crc XOR ucast b) = drop_bit 8 crc XOR crc16_table (ucast crc XOR b)"
proof -
  let ?x = "crc XOR ucast b"
  have "crc_bit_loop 8 ?x = crc_bit_loop 8 (take_bit 8 ?x XOR push_bit 8 (drop_bit 8 ?x))"
    by (rule arg_cong [OF low_high_split])
  also have "\<dots> = crc_bit_loop 8 (take_bit 8 ?x) XOR crc_bit_loop 8 (push_bit 8 (drop_bit 8 ?x))"
    by (rule crc_bit_loop_linear)
  also have "crc_bit_loop 8 (push_bit 8 (drop_bit 8 ?x)) = drop_bit 8 crc"
    using crc_bit_loop_shifts [OF low_byte_of_high, of "drop_bit 8 ?x"]
    by (simp only: high_of_high high_byte_xor_byte)
  also have "crc_bit_loop 8 (take_bit 8 ?x) = crc16_table (ucast crc XOR b)"
    by (simp add: crc16_table_def low_byte_xor_byte [symmetric] ucast_low_byte)
  finally show ?thesis by (simp add: xor.commute)
qed

lemma crc_byte_loop_foldl:
  "crc_byte_loop data crc =
     foldl (\<lambda>crc b. drop_bit 8 crc XOR crc16_table (ucast crc XOR b)) crc data"
  by (induction data arbitrary: crc) (simp_all add: crc_byte_by_table)

lemma crc_byte_loop_append:
  "crc_byte_loop (xs @ ys) crc = crc_byte_loop ys (crc_byte_loop xs crc)"
  by (induction xs arbitrary: crc) simp_all

lemma sendAudioData_udp_out:
  "udp_out (sendAudioData e isFinal st) = udp_out st @ [built_packet e isFinal st]"
  by (simp add: sendAudioData_def built_packet_def Let_def)

text \<open>Two check values: a single zero byte, and the ASCII digits 1 to 9.\<close>

lemma calculateCRC16_zero_byte: "calculateCRC16 [0x00] = 0x40BF"
  by code_simp

lemma calculateCRC16_check_digits:
  "calculateCRC16 [0x31, 0x32, 0x33, 0x34, 0x35, 0x36, 0x37, 0x38, 0x39] = 0x4B37"
  by code_simp

text \<open>
  Claim C2. The integrity code of a payload is a function of its bytes alone: it starts
  from the seed 0xFFFF, which it returns unchanged on the empty payload; every further
  byte is folded in by eight shift/XOR steps with the reflected polynomial 0xA001; the
  result is that of the table-driven CRC-16 with this polynomial and seed; and the code
  stored in the header of every datagram that \<open>sendAudioData\<close> emits is computed over
  exactly the payload bytes of that datagram, the first \<open>2 * samples_count\<close> bytes of the
  send buffer, and over none of the header.
\<close>

theorem calculateCRC16_is_crc16:
  "calculateCRC16 [] = 0xFFFF \<and>
   calculateCRC16 (data @ [b]) = crc_bit_loop 8 (calculateCRC16 data XOR ucast b) \<and>
   crc_bit_loop 8 crc =
     crc_shift_xor (crc_shift_xor (crc_shift_xor (crc_shift_xor
       (crc_shift_xor (crc_shift_xor (crc_shift_xor (crc_shift_xor crc))))))) \<and>
   crc_shift_xor crc = (if odd crc then drop_bit 1 crc XOR 0xA001 else drop_bit 1 crc) \<and>
   calculateCRC16 data = crc16_table_driven data \<and>
   checksum (header (last (udp_out (sendAudioData e isFinal st)))) =
     calculateCRC16 (payload (last (udp_out (sendAudioData e isFinal st)))) \<and>
   payload (last (udp_out (sendAudioData e isFinal st))) =
     take (2 * unat (samples_count (header (last (udp_out (sendAudioData e isFinal st))))))
       (buffer_bytes (sendBuffer st))"
proof -
  have a: "calculateCRC16 [] = 0xFFFF"
    by (simp add: calculateCRC16_def)
  have b: "calculateCRC16 (data @ [b]) = crc_bit_loop 8 (calculateCRC16 data XOR ucast b)"
    by (simp add: calculateCRC16_def crc_byte_loop_append)
  have c: "crc_bit_loop 8 crc =
     crc_shift_xor (crc_shift_xor (crc_shift_xor (crc_shift_xor
       (crc_shift_xor (crc_shift_xor (crc_shift_xor (crc_shift_xor crc)))))))"
    by (simp add: numeral_eq_Suc)
  have d: "crc_shift_xor crc = (if odd crc then drop_bit 1 crc XOR 0xA001 else drop_bit 1 crc)"
    unfolding crc_shift_xor_def and_one_odd ..
  have t: "calculateCRC16 data = crc16_table_driven data"
    by (simp add: calculateCRC16_def crc16_table_driven_def crc_byte_loop_foldl)
  have s: "checksum (header (last (udp_out (sendAudioData e isFinal st)))) =
     calculateCRC16 (payload (last (udp_out (sendAudioData e isFinal st))))"
    by (simp add: sendAudioData_udp_out built_packet_def Let_def)
  have p: "payload (last (udp_out (sendAudioData e isFinal st))) =
     take (2 * unat (samples_count (header (last (udp_out (sendAudioData e isFinal st))))))
       (buffer_bytes (sendBuffer st))"
    by (simp add: sendAudioData_udp_out built_packet_def Let_def mult.commute)
  from a b c d t s p show ?thesis by blast
qed

section \<open>Properties of the capture\<close>

lemma take_PDM_read:
  "length bytes div 2 \<le> length buf \<Longrightarrow>
   take (length bytes div 2) (PDM_read buf bytes) = pdm_samples bytes"
  apply (induction buf bytes rule: PDM_read.induct)
     apply auto
  apply (case_tac va; simp)
  done

lemma length_PDM_read: "length (PDM_read buf bytes) = length buf"
  by (induction buf bytes rule: PDM_read.induct) auto

lemma length_pdm_samples: "length (pdm_samples bytes) = length bytes div 2"
  by (induction bytes rule: pdm_samples.induct) auto

lemma sample_bytes_little_endian: "sample_bytes (push_bit 8 (ucast hi) OR ucast lo) = [lo, hi]"
  unfolding sample_bytes_def
  apply simp
  apply (rule conjI)
   apply (rule bit_word_eqI)
   apply (auto simp: bit_simps dest: bit_imp_le_length)[1]
  apply (rule bit_word_eqI)
  apply (auto simp: bit_simps dest: bit_imp_le_length)[1]
  done

lemma buffer_bytes_pdm_samples:
  "buffer_bytes (pdm_samples bytes) = take (2 * (length bytes div 2)) bytes"
  by (induction bytes rule: pdm_samples.induct)
     (auto simp: buffer_bytes_def sample_bytes_little_endian)

text \<open>The energy that \<open>processAudioWithVAD\<close> computes is that of the captured samples.\<close>

lemma signal_energy_captured:
  assumes "buffers_ok st" "frame_ok (b, e)"
  shows "signal_energy (st\<lparr>audioBuffer := PDM_read (audioBuffer st) b,
                            samplesRead := int (length b) div 2, audioReady := False\<rparr>)
         = Inr (frame_energy (b, e))"
proof -
  have len: "length (audioBuffer st) = 512" and two: "2 \<le> length b" and
    fit: "length b \<le> 1024"
    using assms by (auto simp: buffers_ok_def frame_ok_def BUFFER_SIZE_def)
  have in_range: "\<not> int (length (audioBuffer st)) < int (length b) div 2"
    using len fit by simp
  have nonzero: "int (length b) div 2 \<noteq> 0"
    using two by simp
  have "nat (int (length b) div 2) = length b div 2"
    by (simp add: nat_div_distrib)
  moreover have "length b div 2 \<le> length (audioBuffer st)"
    using len fit by simp
  ultimately have samples:
    "take (nat (int (length b) div 2)) (PDM_read (audioBuffer st) b) = pdm_samples b"
    by (simp add: take_PDM_read)
  show ?thesis
    using in_range nonzero samples
    by (simp add: signal_energy_def frame_energy_def length_PDM_read)
qed

section \<open>Properties of one step\<close>

lemma sendAudioData_fields [simp]:
  "isTransmitting (sendAudioData e fin st) = isTransmitting st"
  "voiceCounter (sendAudioData e fin st) = voiceCounter st"
  "silenceCounter (sendAudioData e fin st) = silenceCounter st"
  "samplesRead (sendAudioData e fin st) = samplesRead st"
  "audioBuffer (sendAudioData e fin st) = audioBuffer st"
  "sendBuffer (sendAudioData e fin st) = sendBuffer st"
  "audioReady (sendAudioData e fin st) = audioReady st"
  "lastActivityTime (sendAudioData e fin st) = lastActivityTime st"
  "packetSequence (sendAudioData e fin st) = packetSequence st + 1"
  by (simp_all add: sendAudioData_def Let_def)

lemma sendAudioData_serial_out:
  "serial_out (sendAudioData e fin st) =
     serial_out st @ (if udp_endPacket e = 0 then [UdpFailure] else [])"
  by (simp add: sendAudioData_def Let_def)

lemma view_sendAudioData: "view (sendAudioData e fin st) = view_send fin (view st)"
  by (simp add: view_def view_send_def sendAudioData_def Let_def)

lemma buffers_ok_sendAudioData [simp]: "buffers_ok (sendAudioData e fin st) = buffers_ok st"
  by (simp add: buffers_ok_def)

lemma vad_update_buffers [simp]:
  "samplesRead (vad_update e v st) = samplesRead st"
  "audioBuffer (vad_update e v st) = audioBuffer st"
  "sendBuffer (vad_update e v st) = sendBuffer st"
  "audioReady (vad_update e v st) = audioReady st"
  by (simp_all add: vad_update_def Let_def)

lemma buffers_ok_vad_update [simp]: "buffers_ok (vad_update e v st) = buffers_ok st"
  by (simp add: buffers_ok_def)

lemma buffers_ok_transmit_frame: "buffers_ok st \<Longrightarrow> buffers_ok (transmit_frame e st)"
  by (auto simp: transmit_frame_def Let_def buffers_ok_def BUFFER_SIZE_def PACKET_SIZE_def)

lemma view_transmit_frame:
  "view (transmit_frame e st) = (if tx (view st) then view_send False (view st) else view st)"
  by (simp add: transmit_frame_def Let_def view_sendAudioData) (simp add: view_def)

lemma view_vad_update:
  "view (vad_update e v st) =
     (if v then
        let w = (view st)\<lparr>vc := vc (view st) + 1, sc := 0\<rparr>
        in if \<not> tx w \<and> MIN_VOICE_FRAMES \<le>s vc w then w\<lparr>tx := True, seqno := 0\<rparr> else w
      else
        let w = (view st)\<lparr>sc := sc (view st) + 1, vc := 0\<rparr>
        in if tx w \<and> SILENCE_FRAMES \<le>s sc w then (view_send True w)\<lparr>tx := False\<rparr> else w)"
  by (simp add: vad_update_def Let_def view_def view_send_def sendAudioData_def)

lemma view_process: "view (transmit_frame e (vad_update e v st)) = view_step v (view st)"
  unfolding view_transmit_frame view_vad_update view_step_def by (simp add: Let_def)

text \<open>The four ways a frame can go, by the number of bytes captured.\<close>

lemma frame_step_ok:
  assumes "buffers_ok st" "frame_ok f"
  shows "frame_step f st =
     Inr (transmit_frame (snd f) (vad_update (snd f) (voiced f)
           (st\<lparr>audioBuffer := PDM_read (audioBuffer st) (fst f),
                samplesRead := int (length (fst f)) div 2, audioReady := False\<rparr>)))"
proof -
  obtain b e where f: "f = (b, e)" by (cases f)
  have pos: "0 < int (length b)" and fit: "\<not> 2 * BUFFER_SIZE < int (length b)"
    using assms(2) by (auto simp: frame_ok_def f)
  show ?thesis
    using signal_energy_captured [OF assms(1) assms(2) [unfolded f]] pos fit
    by (simp add: frame_step_def onPDMdata_def Let_def loop_def processAudioWithVAD_def f
        voiced_def)
qed

lemma frame_step_empty: "\<not> audioReady st \<Longrightarrow> fst f = [] \<Longrightarrow> frame_step f st = Inr st"
  by (simp add: frame_step_def onPDMdata_def loop_def)

lemma frame_step_one_byte: "length (fst f) = 1 \<Longrightarrow> frame_step f st = Inl DivisionByZero"
  by (simp add: frame_step_def onPDMdata_def loop_def processAudioWithVAD_def
      signal_energy_def BUFFER_SIZE_def)

lemma frame_step_overrun:
  "2 * BUFFER_SIZE < int (length (fst f)) \<Longrightarrow> frame_step f st = Inl OutOfBounds"
  by (auto simp add: frame_step_def onPDMdata_def Let_def BUFFER_SIZE_def)

lemma frame_length_cases:
  "fst f = [] \<or> length (fst f) = 1 \<or> frame_ok f \<or> 2 * BUFFER_SIZE < int (length (fst f))"
  unfolding frame_ok_def by (cases "fst f") (auto simp: Suc_le_eq)

lemma frame_step_Inr_ok: "frame_step f st = Inr st' \<Longrightarrow> fst f \<noteq> [] \<Longrightarrow> frame_ok f"
  using frame_length_cases [of f] frame_step_one_byte [of f st] frame_step_overrun [of f st]
  by auto

lemma buffers_ok_captured:
  "buffers_ok st \<Longrightarrow> frame_ok f \<Longrightarrow>
   buffers_ok (st\<lparr>audioBuffer := PDM_read (audioBuffer st) (fst f),
                   samplesRead := int (length (fst f)) div 2, audioReady := False\<rparr>)"
  by (auto simp: buffers_ok_def frame_ok_def length_PDM_read BUFFER_SIZE_def)

lemma frame_step_view:
  assumes "buffers_ok st" "frame_ok f"
  shows "\<exists>st'. frame_step f st = Inr st' \<and> buffers_ok st' \<and>
               view st' = view_step (voiced f) (view st)"
  using frame_step_ok [OF assms]
    buffers_ok_transmit_frame
      [OF buffers_ok_captured [OF assms, THEN buffers_ok_vad_update [THEN iffD2]]]
  by (simp add: view_process) (simp add: view_def)

lemma frame_step_sound:
  assumes "buffers_ok st" "frame_step f st = Inr st'"
  shows "buffers_ok st' \<and>
         view st' = (if fst f = [] then view st else view_step (voiced f) (view st))"
proof (cases "fst f = []")
  case True
  then show ?thesis using assms frame_step_empty [of st f] by (simp add: buffers_ok_def)
next
  case False
  then have "frame_ok f" using assms(2) by (rule frame_step_Inr_ok [rotated])
  from frame_step_view [OF assms(1) this] assms(2) False show ?thesis by auto
qed

section \<open>Properties of the counters\<close>

lemma below_3_cases: "(x::32 word) < 3 \<Longrightarrow> x = 0 \<or> x = 1 \<or> x = 2"
  by unat_arith

lemma below_10_cases:
  "(x::32 word) < 10 \<Longrightarrow>
   x = 0 \<or> x = 1 \<or> x = 2 \<or> x = 3 \<or> x = 4 \<or> x = 5 \<or> x = 6 \<or> x = 7 \<or> x = 8 \<or> x = 9"
  by unat_arith

lemma reaches_3: "(x::32 word) < 3 \<Longrightarrow> (3 \<le>s x + 1) = (x = 2)"
  by (auto dest!: below_3_cases simp: word_sle_eq)

lemma reaches_10: "(x::32 word) < 10 \<Longrightarrow> (10 \<le>s x + 1) = (x = 9)"
  by (auto dest!: below_10_cases simp: word_sle_eq)

lemma succ_below_3: "(x::32 word) < 3 \<Longrightarrow> x \<noteq> 2 \<Longrightarrow> x + 1 < 3"
  by (auto dest!: below_3_cases)

lemma succ_below_10: "(x::32 word) < 10 \<Longrightarrow> x \<noteq> 9 \<Longrightarrow> x + 1 < 10"
  by (auto dest!: below_10_cases)

lemma unat_succ_below_3: "(x::32 word) < 3 \<Longrightarrow> unat (x + 1) = Suc (unat x)"
  by (auto dest!: below_3_cases)

lemma unat_succ_below_10: "(x::32 word) < 10 \<Longrightarrow> unat (x + 1) = Suc (unat x)"
  by (auto dest!: below_10_cases)

text \<open>The six cases of a step of the view.\<close>

lemma view_step_enter:
  "\<not> tx v \<Longrightarrow> vc v = 2 \<Longrightarrow>
   view_step True v =
     v\<lparr>vc := 3, sc := 0, tx := True, seqno := 1, sent := sent v @ [(0, 0x01)]\<rparr>"
  by (simp add: view_step_def view_send_def Let_def MIN_VOICE_FRAMES_def word_sle_eq)

lemma view_step_arm:
  "\<not> tx v \<Longrightarrow> vc v < 3 \<Longrightarrow> vc v \<noteq> 2 \<Longrightarrow> view_step True v = v\<lparr>vc := vc v + 1, sc := 0\<rparr>"
  by (simp add: view_step_def view_send_def Let_def MIN_VOICE_FRAMES_def reaches_3)

lemma view_step_voiced_tx:
  "tx v \<Longrightarrow>
   view_step True v =
     v\<lparr>vc := vc v + 1, sc := 0, seqno := seqno v + 1,
       sent := sent v @ [(seqno v, if seqno v = 0 then 0x01 else 0)]\<rparr>"
  by (simp add: view_step_def view_send_def Let_def)

lemma view_step_leave:
  "tx v \<Longrightarrow> sc v = 9 \<Longrightarrow>
   view_step False v =
     v\<lparr>sc := 10, vc := 0, tx := False, seqno := seqno v + 1,
       sent := sent v @ [(seqno v, (if seqno v = 0 then 0x01 else 0) OR 0x02)]\<rparr>"
  by (simp add: view_step_def view_send_def Let_def SILENCE_FRAMES_def word_sle_eq)

lemma view_step_silent_tx:
  "tx v \<Longrightarrow> sc v < 10 \<Longrightarrow> sc v \<noteq> 9 \<Longrightarrow>
   view_step False v =
     v\<lparr>sc := sc v + 1, vc := 0, seqno := seqno v + 1,
       sent := sent v @ [(seqno v, if seqno v = 0 then 0x01 else 0)]\<rparr>"
  by (simp add: view_step_def view_send_def Let_def SILENCE_FRAMES_def reaches_10)

lemma view_step_idle: "\<not> tx v \<Longrightarrow> view_step False v = v\<lparr>sc := sc v + 1, vc := 0\<rparr>"
  by (simp add: view_step_def view_send_def Let_def)

lemma counters_ok_step: "counters_ok v \<Longrightarrow> counters_ok (view_step b v)"
proof (cases b)
  case True
  assume ok: "counters_ok v"
  show ?thesis
  proof (cases "tx v")
    case tx: True
    then show ?thesis
      using ok True by (simp add: view_step_voiced_tx counters_ok_def SILENCE_FRAMES_def)
  next
    case idle: False
    then have lt: "vc v < 3" using ok by (simp add: counters_ok_def MIN_VOICE_FRAMES_def)
    show ?thesis
    proof (cases "vc v = 2")
      case True
      then show ?thesis
        using idle \<open>b\<close> by (simp add: view_step_enter counters_ok_def SILENCE_FRAMES_def)
    next
      case False
      then show ?thesis
        using idle \<open>b\<close> lt succ_below_3 [OF lt False]
        by (simp add: view_step_arm counters_ok_def MIN_VOICE_FRAMES_def)
    qed
  qed
next
  case False
  assume ok: "counters_ok v"
  show ?thesis
  proof (cases "tx v")
    case tx: True
    then have lt: "sc v < 10" using ok by (simp add: counters_ok_def SILENCE_FRAMES_def)
    show ?thesis
    proof (cases "sc v = 9")
      case True
      then show ?thesis
        using tx \<open>\<not> b\<close> by (simp add: view_step_leave counters_ok_def MIN_VOICE_FRAMES_def)
    next
      case ne: False
      then show ?thesis
        using tx \<open>\<not> b\<close> lt succ_below_10 [OF lt ne]
        by (simp add: view_step_silent_tx counters_ok_def SILENCE_FRAMES_def)
    qed
  next
    case idle: False
    then show ?thesis
      using ok \<open>\<not> b\<close> by (simp add: view_step_idle counters_ok_def MIN_VOICE_FRAMES_def)
  qed
qed

lemma view_step_transition:
  assumes "counters_ok v"
  shows "vc (view_step b v) = (if b then vc v + 1 else 0) \<and>
         sc (view_step b v) = (if b then 0 else sc v + 1) \<and>
         (\<not> tx v \<longrightarrow> (tx (view_step b v) \<longleftrightarrow> b \<and> vc (view_step b v) = MIN_VOICE_FRAMES)) \<and>
         (tx v \<longrightarrow> (\<not> tx (view_step b v) \<longleftrightarrow> \<not> b \<and> sc (view_step b v) = SILENCE_FRAMES))"
proof (cases "tx v")
  case True
  then have lt: "sc v < 10" using assms by (simp add: counters_ok_def SILENCE_FRAMES_def)
  show ?thesis
  proof (cases b)
    case True
    then show ?thesis using \<open>tx v\<close> by (simp add: view_step_voiced_tx)
  next
    case False
    show ?thesis
    proof (cases "sc v = 9")
      case True
      then show ?thesis
        using \<open>tx v\<close> \<open>\<not> b\<close> by (simp add: view_step_leave SILENCE_FRAMES_def)
    next
      case ne: False
      then show ?thesis
        using \<open>tx v\<close> \<open>\<not> b\<close> lt by (simp add: view_step_silent_tx SILENCE_FRAMES_def)
    qed
  qed
next
  case False
  then have lt: "vc v < 3" using assms by (simp add: counters_ok_def MIN_VOICE_FRAMES_def)
  show ?thesis
  proof (cases b)
    case True
    show ?thesis
    proof (cases "vc v = 2")
      case True
      then show ?thesis
        using \<open>\<not> tx v\<close> \<open>b\<close> by (simp add: view_step_enter MIN_VOICE_FRAMES_def)
    next
      case ne: False
      then show ?thesis
        using \<open>\<not> tx v\<close> \<open>b\<close> lt by (simp add: view_step_arm MIN_VOICE_FRAMES_def)
    qed
  next
    case False
    then show ?thesis using \<open>\<not> tx v\<close> by (simp add: view_step_idle)
  qed
qed

section \<open>Datagrams of one step\<close>

lemma view_fields [simp]:
  "tx (view st) = isTransmitting st" "vc (view st) = voiceCounter st"
  "sc (view st) = silenceCounter st" "seqno (view st) = packetSequence st"
  by (simp_all add: view_def)

lemma sent_view: "sent (view st) = map info (udp_out st)"
  by (simp add: view_def info_def[abs_def])

lemma udp_out_vad_update:
  "udp_out (vad_update e v st) =
     udp_out st @
     (if \<not> v \<and> isTransmitting st \<and> SILENCE_FRAMES \<le>s silenceCounter st + 1
      then [built_packet e True (st\<lparr>silenceCounter := silenceCounter st + 1, voiceCounter := 0\<rparr>)]
      else [])"
  by (simp add: vad_update_def Let_def sendAudioData_udp_out)

lemma udp_out_transmit_frame:
  "udp_out (transmit_frame e st) =
     udp_out st @
     (if isTransmitting st
      then [built_packet e False
              (st\<lparr>sendBuffer := take (nat (min (samplesRead st) (PACKET_SIZE div 2))) (audioBuffer st)
                                  @ drop (nat (min (samplesRead st) (PACKET_SIZE div 2))) (sendBuffer st)\<rparr>)]
      else [])"
  by (simp add: transmit_frame_def Let_def sendAudioData_udp_out)

lemma udp_out_process: "\<exists>new. udp_out (transmit_frame e (vad_update e v st)) = udp_out st @ new"
  unfolding udp_out_transmit_frame udp_out_vad_update by simp

lemma udp_out_frame_step:
  assumes "buffers_ok st" "frame_step f st = Inr st'"
  shows "udp_out st' = udp_out st @ emitted st st'"
proof (cases "fst f = []")
  case True
  then have "st' = st" using assms frame_step_empty[of st f] by (simp add: buffers_ok_def)
  then show ?thesis by (simp add: emitted_def)
next
  case False
  then have "frame_ok f" using assms(2) by (rule frame_step_Inr_ok[rotated])
  let ?cap = "st\<lparr>audioBuffer := PDM_read (audioBuffer st) (fst f),
                samplesRead := int (length (fst f)) div 2, audioReady := False\<rparr>"
  from frame_step_ok[OF assms(1) \<open>frame_ok f\<close>] assms(2)
  have st': "st' = transmit_frame (snd f) (vad_update (snd f) (voiced f) ?cap)" by simp
  from udp_out_process[of "snd f" "voiced f" ?cap] obtain new where
    "udp_out st' = udp_out st @ new" unfolding st' by auto
  then show ?thesis by (simp add: emitted_def)
qed

lemma view_step_summary:
  assumes "counters_ok v"
  shows "\<exists>new. sent (view_step b v) = sent v @ new \<and>
     (\<not> tx v \<and> tx (view_step b v) \<longrightarrow> new = [(0, 0x01)] \<and> seqno (view_step b v) = 1) \<and>
     (tx v \<and> tx (view_step b v) \<longrightarrow>
        new = [(seqno v, if seqno v = 0 then 0x01 else 0)] \<and>
        seqno (view_step b v) = seqno v + 1) \<and>
     (tx v \<and> \<not> tx (view_step b v) \<longrightarrow>
        new = [(seqno v, (if seqno v = 0 then 0x01 else 0) OR 0x02)] \<and>
        seqno (view_step b v) = seqno v + 1 \<and> vc (view_step b v) = 0 \<and>
        sc (view_step b v) = SILENCE_FRAMES) \<and>
     (\<not> tx v \<and> \<not> tx (view_step b v) \<longrightarrow> new = [] \<and> seqno (view_step b v) = seqno v)"
proof (cases "tx v")
  case True
  then have lt: "sc v < 10" using assms by (simp add: counters_ok_def SILENCE_FRAMES_def)
  show ?thesis
  proof (cases b)
    case True
    then show ?thesis using \<open>tx v\<close> by (simp add: view_step_voiced_tx)
  next
    case False
    show ?thesis
    proof (cases "sc v = 9")
      case True
      then show ?thesis
        using \<open>tx v\<close> \<open>\<not> b\<close> by (simp add: view_step_leave SILENCE_FRAMES_def)
    next
      case ne: False
      then show ?thesis
        using \<open>tx v\<close> \<open>\<not> b\<close> lt by (simp add: view_step_silent_tx)
    qed
  qed
next
  case False
  then have lt: "vc v < 3" using assms by (simp add: counters_ok_def MIN_VOICE_FRAMES_def)
  show ?thesis
  proof (cases b)
    case True
    show ?thesis
    proof (cases "vc v = 2")
      case True
      then show ?thesis
        using \<open>\<not> tx v\<close> \<open>b\<close> by (simp add: view_step_enter)
    next
      case ne: False
      then show ?thesis
        using \<open>\<not> tx v\<close> \<open>b\<close> lt by (simp add: view_step_arm)
    qed
  next
    case False
    then show ?thesis using \<open>\<not> tx v\<close> by (simp add: view_step_idle)
  qed
qed

section \<open>Properties of runs\<close>

lemma state_ok_init: "state_ok init"
  by (simp add: state_ok_def buffers_ok_def counters_ok_def view_def init_def
      BUFFER_SIZE_def PACKET_SIZE_def MIN_VOICE_FRAMES_def)

lemma state_ok_step: "state_ok st \<Longrightarrow> frame_step f st = Inr st' \<Longrightarrow> state_ok st'"
  using frame_step_sound [of st f st'] counters_ok_step [of "view st" "voiced f"]
  by (auto simp: state_ok_def split: if_splits)

lemma state_ok_run: "state_ok st \<Longrightarrow> run st fs = Inr st' \<Longrightarrow> state_ok st'"
proof (induction fs arbitrary: st)
  case Nil
  then show ?case by simp
next
  case (Cons f fs)
  then show ?case by (auto split: sum.splits dest: state_ok_step)
qed

lemma reachable_ok: "run init hist = Inr st \<Longrightarrow> state_ok st"
  by (rule state_ok_run [OF state_ok_init])

text \<open>A run over well-formed captures ends without a fault, and the view follows it.\<close>

lemma run_ok:
  "buffers_ok st \<Longrightarrow> list_all frame_ok fs \<Longrightarrow>
   \<exists>st'. run st fs = Inr st' \<and> buffers_ok st' \<and>
         view st' = view_run (view st) (map voiced fs)"
proof (induction fs arbitrary: st)
  case Nil
  then show ?case by simp
next
  case (Cons f fs)
  from Cons.prems have "frame_ok f" "list_all frame_ok fs" by simp_all
  from frame_step_view [OF Cons.prems(1) this(1)] obtain st1 where
    s: "frame_step f st = Inr st1" "buffers_ok st1"
       "view st1 = view_step (voiced f) (view st)"
    by blast
  from Cons.IH [OF s(2) \<open>list_all frame_ok fs\<close>] s show ?case by auto
qed

lemma voiced_keeps_tx: "tx v \<Longrightarrow> tx (view_run v (replicate k True))"
  by (induction k arbitrary: v) (simp_all add: view_step_voiced_tx)

lemma silent_keeps_idle: "\<not> tx v \<Longrightarrow> \<not> tx (view_run v (replicate k False))"
  by (induction k arbitrary: v) (simp_all add: view_step_idle)

lemma voiced_run_enters:
  "\<not> tx v \<Longrightarrow> vc v < 3 \<Longrightarrow> tx (view_run v (replicate k True)) = (3 \<le> unat (vc v) + k)"
proof (induction k arbitrary: v)
  case 0
  then show ?case by (auto dest!: below_3_cases)
next
  case (Suc k)
  show ?case
  proof (cases "vc v = 2")
    case True
    then show ?thesis
      using Suc.prems voiced_keeps_tx [of "view_step True v" k] by (simp add: view_step_enter)
  next
    case False
    from Suc.IH [of "view_step True v"] Suc.prems False succ_below_3 [OF Suc.prems(2) False]
    show ?thesis by (simp add: view_step_arm unat_succ_below_3)
  qed
qed

lemma silent_run_leaves:
  "tx v \<Longrightarrow> sc v < 10 \<Longrightarrow> tx (view_run v (replicate k False)) = (unat (sc v) + k < 10)"
proof (induction k arbitrary: v)
  case 0
  then show ?case by (auto dest!: below_10_cases)
next
  case (Suc k)
  show ?case
  proof (cases "sc v = 9")
    case True
    then show ?thesis
      using Suc.prems silent_keeps_idle [of "view_step False v" k]
      by (simp add: view_step_leave)
  next
    case False
    from Suc.IH [of "view_step False v"] Suc.prems False succ_below_10 [OF Suc.prems(2) False]
    show ?thesis by (simp add: view_step_silent_tx unat_succ_below_10)
  qed
qed

lemma map_all_True: "list_all P xs \<Longrightarrow> map P xs = replicate (length xs) True"
  by (induction xs) simp_all

lemma map_all_False: "list_all (\<lambda>x. \<not> P x) xs \<Longrightarrow> map P xs = replicate (length xs) False"
  by (induction xs) simp_all

lemma frame_step_emits:
  assumes "state_ok st" "frame_step f st = Inr st'" "fst f \<noteq> []"
  shows
    "(\<not> isTransmitting st \<and> isTransmitting st' \<longrightarrow>
        map info (emitted st st') = [(0, 0x01)] \<and> packetSequence st' = 1) \<and>
     (isTransmitting st \<and> isTransmitting st' \<longrightarrow>
        map info (emitted st st') =
          [(packetSequence st, if packetSequence st = 0 then 0x01 else 0)] \<and>
        packetSequence st' = packetSequence st + 1) \<and>
     (isTransmitting st \<and> \<not> isTransmitting st' \<longrightarrow>
        map info (emitted st st') =
          [(packetSequence st, (if packetSequence st = 0 then 0x01 else 0) OR 0x02)] \<and>
        packetSequence st' = packetSequence st + 1 \<and> voiceCounter st' = 0 \<and>
        silenceCounter st' = SILENCE_FRAMES) \<and>
     (\<not> isTransmitting st \<and> \<not> isTransmitting st' \<longrightarrow>
        emitted st st' = [] \<and> packetSequence st' = packetSequence st)"
proof -
  from assms(1) have b: "buffers_ok st" and c: "counters_ok (view st)"
    by (simp_all add: state_ok_def)
  let ?v' = "view_step (voiced f) (view st)"
  from frame_step_sound[OF b assms(2)] assms(3)
  have v: "view st' = ?v'" by simp
  have p: "tx ?v' = isTransmitting st'" "seqno ?v' = packetSequence st'"
    "vc ?v' = voiceCounter st'" "sc ?v' = silenceCounter st'"
    unfolding v[symmetric] by simp_all
  have s: "sent ?v' = sent (view st) @ map info (emitted st st')"
    unfolding v[symmetric] sent_view using udp_out_frame_step[OF b assms(2)] by (metis map_append)
  from view_step_summary[OF c, of "voiced f"] obtain new where
    n: "sent ?v' = sent (view st) @ new"
     "\<not> isTransmitting st \<and> isTransmitting st' \<longrightarrow> new = [(0, 0x01)] \<and> packetSequence st' = 1"
     "isTransmitting st \<and> isTransmitting st' \<longrightarrow>
        new = [(packetSequence st, if packetSequence st = 0 then 0x01 else 0)] \<and>
        packetSequence st' = packetSequence st + 1"
     "isTransmitting st \<and> \<not> isTransmitting st' \<longrightarrow>
        new = [(packetSequence st, (if packetSequence st = 0 then 0x01 else 0) OR 0x02)] \<and>
        packetSequence st' = packetSequence st + 1 \<and> voiceCounter st' = 0 \<and>
        silenceCounter st' = SILENCE_FRAMES"
     "\<not> isTransmitting st \<and> \<not> isTransmitting st' \<longrightarrow> new = [] \<and> packetSequence st' = packetSequence st"
    unfolding p view_fields by blast
  from n(1) s have e: "new = map info (emitted st st')" by simp
  from n(2-5) show ?thesis unfolding e by simp
qed

lemma map_info_single:
  "map info ds = [(s, fl)] \<Longrightarrow> \<exists>d. ds = [d] \<and> sequence (header d) = s \<and> flags (header d) = fl"
  by (cases ds) (auto simp: info_def)

text \<open>The numbering is kept by every step, hence by every run.\<close>

lemma current_utterance_snoc:
  "current_utterance (ps @ [p]) = (if snd p AND 0x02 = 0 then current_utterance ps @ [p] else [])"
  by (simp add: current_utterance_def)

lemma current_utterance_empty:
  "current_utterance ps = [] \<longleftrightarrow> ps = [] \<or> snd (last ps) AND 0x02 \<noteq> 0"
  by (cases ps rule: rev_cases) (auto simp: current_utterance_def)

lemma flag_bits [simp]:
  "(1::8 word) AND 2 = 0" "(1::8 word) OR 2 = 3" "(3::8 word) AND 2 = 2"
  "(2::8 word) AND 2 = 2" "(0::8 word) OR 2 = 2"
  by simp_all

lemma trace_ok_enter:
  assumes "trace_ok v" "\<not> tx v"
  shows "trace_ok (w\<lparr>tx := True, seqno := 1, sent := sent v @ [(0, 0x01)]\<rparr>)"
proof -
  from assms have cu: "current_utterance (sent v) = []"
    and su: "successively pair_follows (sent v)"
    and h: "sent v = [] \<or> fst (hd (sent v)) = 0"
    by (simp_all add: trace_ok_def)
  from cu have l: "sent v = [] \<or> snd (last (sent v)) AND 0x02 \<noteq> 0"
    by (simp add: current_utterance_empty)
  from l have f: "sent v = [] \<or> pair_follows (last (sent v)) (0, 0x01)"
    by (auto simp: pair_follows_def)
  from h have h': "fst (hd (sent v @ [(0, 0x01)])) = 0"
    by (cases "sent v") simp_all
  show ?thesis
    using cu su f h'
    by (simp add: trace_ok_def successively_append_iff current_utterance_snoc)
qed

lemma trace_ok_continue:
  assumes "trace_ok v" "tx v"
  shows "trace_ok (w\<lparr>tx := True, seqno := seqno v + 1,
                     sent := sent v @ [(seqno v, if seqno v = 0 then 0x01 else 0)]\<rparr>)"
  using assms
  by (auto simp: trace_ok_def successively_append_iff pair_follows_def current_utterance_snoc)

lemma trace_ok_leave:
  assumes "trace_ok v" "tx v"
  shows "trace_ok (w\<lparr>tx := False, seqno := seqno v + 1,
                     sent := sent v @ [(seqno v, (if seqno v = 0 then 0x01 else 0) OR 0x02)]\<rparr>)"
  using assms
  by (auto simp: trace_ok_def successively_append_iff pair_follows_def current_utterance_snoc)

lemma trace_ok_cong:
  "tx w = tx v \<Longrightarrow> seqno w = seqno v \<Longrightarrow> sent w = sent v \<Longrightarrow> trace_ok w = trace_ok v"
  by (simp add: trace_ok_def)

lemma trace_ok_step:
  assumes "counters_ok v" "trace_ok v"
  shows "trace_ok (view_step b v)"
proof (cases "tx v")
  case True
  then have lt: "sc v < 10" using assms by (simp add: counters_ok_def SILENCE_FRAMES_def)
  show ?thesis
  proof (cases b)
    case True
    have "trace_ok (view_step True v) = trace_ok (v\<lparr>tx := True, seqno := seqno v + 1,
                     sent := sent v @ [(seqno v, if seqno v = 0 then 0x01 else 0)]\<rparr>)"
      using \<open>tx v\<close> by (intro trace_ok_cong) (simp_all add: view_step_voiced_tx)
    then show ?thesis using trace_ok_continue[OF assms(2) \<open>tx v\<close>, of v] True by simp
  next
    case False
    show ?thesis
    proof (cases "sc v = 9")
      case True
      have "trace_ok (view_step False v) = trace_ok (v\<lparr>tx := False, seqno := seqno v + 1,
                     sent := sent v @ [(seqno v, (if seqno v = 0 then 0x01 else 0) OR 0x02)]\<rparr>)"
        using \<open>tx v\<close> True by (intro trace_ok_cong) (simp_all add: view_step_leave)
      then show ?thesis using trace_ok_leave[OF assms(2) \<open>tx v\<close>, of v] \<open>\<not> b\<close> by simp
    next
      case ne: False
      have "trace_ok (view_step False v) = trace_ok (v\<lparr>tx := True, seqno := seqno v + 1,
                     sent := sent v @ [(seqno v, if seqno v = 0 then 0x01 else 0)]\<rparr>)"
        using \<open>tx v\<close> lt ne by (intro trace_ok_cong) (simp_all add: view_step_silent_tx)
      then show ?thesis using trace_ok_continue[OF assms(2) \<open>tx v\<close>, of v] \<open>\<not> b\<close> by simp
    qed
  qed
next
  case False
  then have lt: "vc v < 3" using assms by (simp add: counters_ok_def MIN_VOICE_FRAMES_def)
  show ?thesis
  proof (cases b)
    case True
    show ?thesis
    proof (cases "vc v = 2")
      case True
      have "trace_ok (view_step True v) = trace_ok (v\<lparr>tx := True, seqno := 1, sent := sent v @ [(0, 0x01)]\<rparr>)"
        using \<open>\<not> tx v\<close> True by (intro trace_ok_cong) (simp_all add: view_step_enter)
      then show ?thesis using trace_ok_enter[OF assms(2) \<open>\<not> tx v\<close>, of v] \<open>b\<close> by simp
    next
      case ne: False
      have "trace_ok (view_step True v) = trace_ok v"
        using \<open>\<not> tx v\<close> lt ne by (intro trace_ok_cong) (simp_all add: view_step_arm)
      then show ?thesis using assms(2) \<open>b\<close> by simp
    qed
  next
    case False
    have "trace_ok (view_step False v) = trace_ok v"
      using \<open>\<not> tx v\<close> by (intro trace_ok_cong) (simp_all add: view_step_idle)
    then show ?thesis using assms(2) \<open>\<not> b\<close> by simp
  qed
qed

lemma trace_ok_init: "trace_ok (view init)"
  by (simp add: trace_ok_def view_def init_def current_utterance_def)

lemma trace_ok_frame_step:
  "state_ok st \<Longrightarrow> trace_ok (view st) \<Longrightarrow> frame_step f st = Inr st' \<Longrightarrow> trace_ok (view st')"
  using frame_step_sound[of st f st'] trace_ok_step[of "view st" "voiced f"]
  by (auto simp: state_ok_def split: if_splits)

lemma trace_ok_run:
  "state_ok st \<Longrightarrow> trace_ok (view st) \<Longrightarrow> run st fs = Inr st' \<Longrightarrow> trace_ok (view st')"
proof (induction fs arbitrary: st)
  case Nil
  then show ?case by simp
next
  case (Cons f fs)
  from Cons.prems(3) obtain st1 where s: "frame_step f st = Inr st1" "run st1 fs = Inr st'"
    by (auto split: sum.splits)
  from Cons.IH[OF state_ok_step[OF Cons.prems(1) s(1)] trace_ok_frame_step[OF Cons.prems(1,2) s(1)] s(2)]
  show ?case .
qed

lemma reachable_trace_ok: "run init hist = Inr st \<Longrightarrow> trace_ok (view st)"
  by (rule trace_ok_run[OF state_ok_init trace_ok_init])

lemma run_idle1: "run init [frame200] = Inr idle1"
proof -
  have "\<not> isl (run init [frame200])" by code_simp
  then show ?thesis unfolding idle1_def by simp
qed

lemma run_talk3: "run init [frame900, frame900, frame900] = Inr talk3"
proof -
  have "\<not> isl (run init [frame900, frame900, frame900])" by code_simp
  then show ?thesis unfolding talk3_def by simp
qed

text \<open>
  Claim C1. At any state that a run of frames reaches: a buffer-ready frame counts up
  the voice counter and clears the silence counter when its energy is above the
  threshold, and does the inverse otherwise; the machine goes from not transmitting to
  transmitting exactly on a voiced frame that brings the voice counter to
  \<open>MIN_VOICE_FRAMES\<close>, and from transmitting to not transmitting exactly on a silent frame
  that brings the silence counter to \<open>SILENCE_FRAMES\<close>. Hence a machine that is not
  transmitting is transmitting after a series of voiced frames exactly when the counter
  and the series together reach \<open>MIN_VOICE_FRAMES\<close> (one frame less does not start the
  utterance), and a transmitting machine is still transmitting after a series of silent
  frames exactly when the counter and the series together stay below \<open>SILENCE_FRAMES\<close>
  (one frame less than the threshold does not end the utterance, the threshold does).
\<close>

theorem vad_thresholds:
  assumes "run init hist = Inr st"
  shows "(\<forall>f st'. frame_step f st = Inr st' \<and> fst f \<noteq> [] \<longrightarrow>
            voiceCounter st' = (if voiced f then voiceCounter st + 1 else 0) \<and>
            silenceCounter st' = (if voiced f then 0 else silenceCounter st + 1) \<and>
            (\<not> isTransmitting st \<longrightarrow>
               (isTransmitting st' \<longleftrightarrow> voiced f \<and> voiceCounter st' = MIN_VOICE_FRAMES)) \<and>
            (isTransmitting st \<longrightarrow>
               (\<not> isTransmitting st' \<longleftrightarrow> silent f \<and> silenceCounter st' = SILENCE_FRAMES))) \<and>
         (\<forall>fs. list_all frame_ok fs \<and> list_all voiced fs \<and> \<not> isTransmitting st \<longrightarrow>
            (\<exists>st'. run st fs = Inr st' \<and>
               (isTransmitting st' \<longleftrightarrow>
                  unat MIN_VOICE_FRAMES \<le> unat (voiceCounter st) + length fs))) \<and>
         (\<forall>fs. list_all frame_ok fs \<and> list_all silent fs \<and> isTransmitting st \<longrightarrow>
            (\<exists>st'. run st fs = Inr st' \<and>
               (isTransmitting st' \<longleftrightarrow>
                  unat (silenceCounter st) + length fs < unat SILENCE_FRAMES)))"
proof -
  from reachable_ok [OF assms] have b: "buffers_ok st" and c: "counters_ok (view st)"
    by (simp_all add: state_ok_def)
  have step: "voiceCounter st' = (if voiced f then voiceCounter st + 1 else 0) \<and>
            silenceCounter st' = (if voiced f then 0 else silenceCounter st + 1) \<and>
            (\<not> isTransmitting st \<longrightarrow>
               (isTransmitting st' \<longleftrightarrow> voiced f \<and> voiceCounter st' = MIN_VOICE_FRAMES)) \<and>
            (isTransmitting st \<longrightarrow>
               (\<not> isTransmitting st' \<longleftrightarrow> silent f \<and> silenceCounter st' = SILENCE_FRAMES))"
    if "frame_step f st = Inr st'" "fst f \<noteq> []" for f st'
  proof -
    from frame_step_sound [OF b that(1)] that(2)
    have v: "view st' = view_step (voiced f) (view st)" by simp
    have p: "isTransmitting st' = tx (view st')" "voiceCounter st' = vc (view st')"
      "silenceCounter st' = sc (view st')" "isTransmitting st = tx (view st)"
      "voiceCounter st = vc (view st)" "silenceCounter st = sc (view st)"
      by (simp_all add: view_def)
    show ?thesis
      unfolding p v silent_def using view_step_transition [OF c, of "voiced f"] by simp
  qed
  have enter: "\<exists>st'. run st fs = Inr st' \<and>
               (isTransmitting st' \<longleftrightarrow>
                  unat MIN_VOICE_FRAMES \<le> unat (voiceCounter st) + length fs)"
    if "list_all frame_ok fs" "list_all voiced fs" "\<not> isTransmitting st" for fs
  proof -
    from run_ok [OF b that(1)] obtain st' where
      r: "run st fs = Inr st'" "view st' = view_run (view st) (map voiced fs)" by blast
    have i: "\<not> tx (view st)" "vc (view st) < 3"
      using that(3) c by (simp_all add: view_def counters_ok_def MIN_VOICE_FRAMES_def)
    have "isTransmitting st' = tx (view st')" by (simp add: view_def)
    also have "\<dots> = (3 \<le> unat (vc (view st)) + length fs)"
      unfolding r(2) map_all_True [OF that(2)] by (rule voiced_run_enters [OF i])
    finally show ?thesis using r(1) by (simp add: view_def MIN_VOICE_FRAMES_def)
  qed
  have leave: "\<exists>st'. run st fs = Inr st' \<and>
               (isTransmitting st' \<longleftrightarrow>
                  unat (silenceCounter st) + length fs < unat SILENCE_FRAMES)"
    if "list_all frame_ok fs" "list_all silent fs" "isTransmitting st" for fs
  proof -
    from run_ok [OF b that(1)] obtain st' where
      r: "run st fs = Inr st'" "view st' = view_run (view st) (map voiced fs)" by blast
    have i: "tx (view st)" "sc (view st) < 10"
      using that(3) c by (simp_all add: view_def counters_ok_def SILENCE_FRAMES_def)
    have m: "map voiced fs = replicate (length fs) False"
      using that(2) unfolding silent_def [abs_def] by (rule map_all_False)
    have "isTransmitting st' = tx (view st')" by (simp add: view_def)
    also have "\<dots> = (unat (sc (view st)) + length fs < 10)"
      unfolding r(2) m by (rule silent_run_leaves [OF i])
    finally show ?thesis using r(1) by (simp add: view_def SILENCE_FRAMES_def)
  qed
  from step enter leave show ?thesis by blast
qed

theorem vad_thresholds_witness:
  "\<not> isTransmitting (projr (run idle1 [frame900, frame900])) \<and>
   isTransmitting (projr (run idle1 [frame900, frame900, frame900])) \<and>
   isTransmitting (projr (run talk3 (replicate 9 frame200))) \<and>
   \<not> isTransmitting (projr (run talk3 (replicate 10 frame200)))"
proof -
  have i: "\<not> isTransmitting idle1" "unat (voiceCounter idle1) = 0"
    unfolding idle1_def by code_simp+
  have t: "isTransmitting talk3" "unat (silenceCounter talk3) = 0"
    unfolding talk3_def by code_simp+
  have v2: "list_all frame_ok [frame900, frame900]" "list_all voiced [frame900, frame900]"
    by code_simp+
  have v3: "list_all frame_ok [frame900, frame900, frame900]"
    "list_all voiced [frame900, frame900, frame900]"
    by code_simp+
  have s9: "list_all frame_ok (replicate 9 frame200)" "list_all silent (replicate 9 frame200)"
    by code_simp+
  have s10: "list_all frame_ok (replicate 10 frame200)"
    "list_all silent (replicate 10 frame200)"
    by code_simp+
  have enter: "\<exists>st'. run idle1 fs = Inr st' \<and>
      (isTransmitting st' \<longleftrightarrow> unat MIN_VOICE_FRAMES \<le> unat (voiceCounter idle1) + length fs)"
    if "list_all frame_ok fs" "list_all voiced fs" for fs
    using vad_thresholds [OF run_idle1] that i(1) by blast
  have leave: "\<exists>st'. run talk3 fs = Inr st' \<and>
      (isTransmitting st' \<longleftrightarrow> unat (silenceCounter talk3) + length fs < unat SILENCE_FRAMES)"
    if "list_all frame_ok fs" "list_all silent fs" for fs
    using vad_thresholds [OF run_talk3] that t(1) by blast
  have a: "\<not> isTransmitting (projr (run idle1 [frame900, frame900]))"
    using enter [OF v2] i(2) by (auto simp: MIN_VOICE_FRAMES_def)
  have b: "isTransmitting (projr (run idle1 [frame900, frame900, frame900]))"
    using enter [OF v3] i(2) by (auto simp: MIN_VOICE_FRAMES_def)
  have c: "isTransmitting (projr (run talk3 (replicate 9 frame200)))"
    using leave [OF s9] t(2) by (auto simp: SILENCE_FRAMES_def)
  have d: "\<not> isTransmitting (projr (run talk3 (replicate 10 frame200)))"
    using leave [OF s10] t(2) by (auto simp: SILENCE_FRAMES_def)
  from a b c d show ?thesis by blast
qed

section \<open>Flags and sequence numbers\<close>

lemma start_flag_iff:
  "flags (header d) = (if s = (0::32 word) then 0x01 else 0) \<Longrightarrow> start_flag d = (s = 0)"
  "flags (header d) = (if s = (0::32 word) then 0x01 else 0) OR 0x02 \<Longrightarrow> start_flag d = (s = 0)"
  by (auto simp: start_flag_def)

lemma final_flag_iff:
  "flags (header d) = (if s = (0::32 word) then 0x01 else 0) \<Longrightarrow> \<not> final_flag d"
  "flags (header d) = (if s = (0::32 word) then 0x01 else 0) OR 0x02 \<Longrightarrow> final_flag d"
  by (auto simp: final_flag_def)

lemma position_wraps:
  "(word_of_nat n = (0::32 word)) = (2 ^ 32 dvd n)"
  by (simp add: word_of_nat_eq_0_iff)

lemma run_armed2: "run init [frame900, frame900] = Inr armed2"
proof -
  have "\<not> isl (run init [frame900, frame900])" by code_simp
  then show ?thesis unfolding armed2_def by simp
qed

lemma run_quiet9: "run init ([frame900, frame900, frame900] @ replicate 9 frame200) = Inr quiet9"
proof -
  have "\<not> isl (run init ([frame900, frame900, frame900] @ replicate 9 frame200))" by code_simp
  then show ?thesis unfolding quiet9_def by simp
qed

lemma step_armed2: "frame_step frame900 armed2 = Inr talk3"
proof -
  have "frame_step frame900 armed2 = Inr talk3" unfolding armed2_def talk3_def by code_simp
  then show ?thesis .
qed

lemma step_quiet9: "frame_step frame200 quiet9 = Inr ended"
  unfolding quiet9_def ended_def by code_simp

lemma scenario_facts:
  "\<not> isTransmitting armed2" "isTransmitting talk3" "isTransmitting quiet9" "\<not> isTransmitting ended"
  "fst frame900 \<noteq> []" "fst frame200 \<noteq> []"
  unfolding armed2_def talk3_def quiet9_def ended_def by code_simp+

lemma view_step_pair:
  assumes "tx v" "sc v = 1" "vc v = 0"
  shows "tx (view_step False (view_step True v)) \<and>
         sc (view_step False (view_step True v)) = 1 \<and>
         vc (view_step False (view_step True v)) = 0 \<and>
         seqno (view_step False (view_step True v)) = seqno v + 2"
proof -
  let ?w = "view_step True v"
  have w: "tx ?w" "sc ?w = 0" "seqno ?w = seqno v + 1"
    using assms by (simp_all add: view_step_voiced_tx)
  have "sc ?w < 10" "sc ?w \<noteq> 9" using w(2) by simp_all
  from view_step_silent_tx [OF w(1) this] w show ?thesis by simp
qed

lemma view_run_append: "view_run v (xs @ ys) = view_run (view_run v xs) ys"
  by (induction xs arbitrary: v) simp_all

lemma view_run_pairs:
  "tx v \<Longrightarrow> sc v = 1 \<Longrightarrow> vc v = 0 \<Longrightarrow>
   tx (view_run v (concat (replicate n [True, False]))) \<and>
   seqno (view_run v (concat (replicate n [True, False]))) = seqno v + 2 * of_nat n"
proof (induction n arbitrary: v)
  case 0
  then show ?case by simp
next
  case (Suc n)
  from view_step_pair [OF Suc.prems]
  have p: "tx (view_step False (view_step True v))" "sc (view_step False (view_step True v)) = 1"
    "vc (view_step False (view_step True v)) = 0"
    "seqno (view_step False (view_step True v)) = seqno v + 2" by simp_all
  from Suc.IH [OF p(1-3)] p(4) show ?case by (simp add: algebra_simps)
qed

lemma view_after_first_pause:
  "tx (view_run (view init) [True, True, True, False]) \<and>
   sc (view_run (view init) [True, True, True, False]) = 1 \<and>
   vc (view_run (view init) [True, True, True, False]) = 0 \<and>
   seqno (view_run (view init) [True, True, True, False]) = 2"
  by code_simp

lemma list_all_concat_replicate: "list_all P xs \<Longrightarrow> list_all P (concat (replicate n xs))"
  by (induction n) simp_all

lemma frame_facts:
  "frame_ok frame900" "frame_ok frame200" "voiced frame900" "\<not> voiced frame200"
  by code_simp+

lemma long_utterance_ok: "list_all frame_ok long_utterance"
  unfolding long_utterance_def
  by (simp add: frame_facts list_all_concat_replicate)

lemma long_utterance_voiced:
  "map voiced long_utterance =
     [True, True, True, False] @ concat (replicate 2147483647 [True, False])"
  unfolding long_utterance_def
  by (simp add: frame_facts map_concat)

lemma long_utterance_view:
  "tx (view_run (view init) (map voiced long_utterance)) \<and>
   seqno (view_run (view init) (map voiced long_utterance)) = 0"
proof -
  let ?v = "view_run (view init) [True, True, True, False]"
  from view_after_first_pause have v: "tx ?v" "sc ?v = 1" "vc ?v = 0" "seqno ?v = 2" by simp_all
  from view_run_pairs [OF v(1-3), of 2147483647] v(4)
  show ?thesis unfolding long_utterance_voiced view_run_append by simp
qed

lemma pair_follows_info:
  "pair_follows (info p) (info q) =
     (sequence (header q) = (if final_flag p then 0 else sequence (header p) + 1))"
  by (simp add: pair_follows_def info_def final_flag_def)

text \<open>
  What a buffer-ready frame emits at a state that a run reaches, by the transition it
  makes: on entering Transmitting, exactly one datagram, with bit 0 set and bit 1 clear;
  on leaving Transmitting, exactly one datagram, with bit 1 set; while staying in
  Transmitting, exactly one datagram, with bit 1 clear; and none while staying out of it.
  Bit 0 of a datagram that does not open the utterance follows the sequence counter: it
  is set exactly when the number of datagrams that the utterance in progress has already
  sent, which is at least 1, is a multiple of \<open>2 ^ 32\<close>.
\<close>

lemma flags_mark_utterance:
  assumes "run init hist = Inr st" "frame_step f st = Inr st'" "fst f \<noteq> []"
  shows
   "(\<not> isTransmitting st \<and> isTransmitting st' \<longrightarrow>
       (\<exists>d. emitted st st' = [d] \<and> start_flag d \<and> \<not> final_flag d)) \<and>
    (isTransmitting st \<and> \<not> isTransmitting st' \<longrightarrow>
       (\<exists>d. emitted st st' = [d] \<and> final_flag d \<and>
            (start_flag d \<longleftrightarrow> 2 ^ 32 dvd length (current_utterance (map info (udp_out st)))))) \<and>
    (isTransmitting st \<and> isTransmitting st' \<longrightarrow>
       (\<exists>d. emitted st st' = [d] \<and> \<not> final_flag d \<and>
            (start_flag d \<longleftrightarrow> 2 ^ 32 dvd length (current_utterance (map info (udp_out st)))))) \<and>
    (\<not> isTransmitting st \<and> \<not> isTransmitting st' \<longrightarrow> emitted st st' = []) \<and>
    (isTransmitting st \<longrightarrow> 0 < length (current_utterance (map info (udp_out st))))"
proof -
  note ok = reachable_ok [OF assms(1)]
  note tr = reachable_trace_ok [OF assms(1)]
  note em = frame_step_emits [OF ok assms(2,3)]
  have pos: "packetSequence st = of_nat (length (current_utterance (map info (udp_out st))))"
    and nonempty: "0 < length (current_utterance (map info (udp_out st)))"
    if "isTransmitting st"
    using tr that by (auto simp: trace_ok_def sent_view current_utterance_empty)
  have a: "\<exists>d. emitted st st' = [d] \<and> start_flag d \<and> \<not> final_flag d"
    if "\<not> isTransmitting st" "isTransmitting st'"
  proof -
    from em that have "map info (emitted st st') = [(0, 0x01)]" by simp
    from map_info_single [OF this] show ?thesis
      by (auto simp: start_flag_def final_flag_def)
  qed
  have b: "\<exists>d. emitted st st' = [d] \<and> final_flag d \<and>
            (start_flag d \<longleftrightarrow> 2 ^ 32 dvd length (current_utterance (map info (udp_out st))))"
    if "isTransmitting st" "\<not> isTransmitting st'"
  proof -
    from em that have "map info (emitted st st') =
        [(packetSequence st, (if packetSequence st = 0 then 0x01 else 0) OR 0x02)]" by simp
    from map_info_single [OF this] obtain d where
      d: "emitted st st' = [d]"
         "flags (header d) = (if packetSequence st = 0 then 0x01 else 0) OR 0x02" by blast
    from start_flag_iff(2) [OF d(2)] final_flag_iff(2) [OF d(2)] d(1) pos [OF that(1)]
    show ?thesis by (simp add: position_wraps)
  qed
  have c: "\<exists>d. emitted st st' = [d] \<and> \<not> final_flag d \<and>
            (start_flag d \<longleftrightarrow> 2 ^ 32 dvd length (current_utterance (map info (udp_out st))))"
    if "isTransmitting st" "isTransmitting st'"
  proof -
    from em that have "map info (emitted st st') =
        [(packetSequence st, if packetSequence st = 0 then 0x01 else 0)]" by simp
    from map_info_single [OF this] obtain d where
      d: "emitted st st' = [d]"
         "flags (header d) = (if packetSequence st = 0 then 0x01 else 0)" by blast
    from start_flag_iff(1) [OF d(2)] final_flag_iff(1) [OF d(2)] d(1) pos [OF that(1)]
    show ?thesis by (simp add: position_wraps)
  qed
  have e: "emitted st st' = []" if "\<not> isTransmitting st" "\<not> isTransmitting st'"
    using em that by simp
  from a b c e nonempty show ?thesis by blast
qed

text \<open>
  A run that has sent fewer than \<open>2 ^ 32\<close> datagrams sets the flags as documented: bit 0
  on the datagram that opens an utterance and on no other, bit 1 on the datagram that
  closes it and on no other.
\<close>

lemma current_utterance_length: "length (current_utterance ps) \<le> length ps"
  unfolding current_utterance_def
  using length_takeWhile_le [of "\<lambda>p. snd p AND 0x02 = 0" "rev ps"] by simp

lemma no_wrap_yet:
  assumes "0 < n" "n < (2::nat) ^ 32"
  shows "\<not> 2 ^ 32 dvd n"
proof
  assume "(2::nat) ^ 32 dvd n"
  from dvd_imp_le [OF this assms(1)] assms(2) show False by simp
qed

lemma flags_before_wrap:
  assumes "run init hist = Inr st" "frame_step f st = Inr st'" "fst f \<noteq> []"
    and "length (udp_out st) < 2 ^ 32"
  shows
   "(\<not> isTransmitting st \<and> isTransmitting st' \<longrightarrow>
       (\<exists>d. emitted st st' = [d] \<and> start_flag d \<and> \<not> final_flag d)) \<and>
    (isTransmitting st \<and> \<not> isTransmitting st' \<longrightarrow>
       (\<exists>d. emitted st st' = [d] \<and> final_flag d \<and> \<not> start_flag d)) \<and>
    (isTransmitting st \<and> isTransmitting st' \<longrightarrow>
       (\<exists>d. emitted st st' = [d] \<and> \<not> final_flag d \<and> \<not> start_flag d)) \<and>
    (\<not> isTransmitting st \<and> \<not> isTransmitting st' \<longrightarrow> emitted st st' = [])"
proof -
  let ?n = "length (current_utterance (map info (udp_out st)))"
  note m = flags_mark_utterance [OF assms(1-3)]
  have le: "?n < 2 ^ 32"
    using current_utterance_length [of "map info (udp_out st)"] assms(4) by simp
  have nw: "\<not> 2 ^ 32 dvd ?n" if "isTransmitting st"
  proof -
    from m that have "0 < ?n" by blast
    from no_wrap_yet [OF this le] show ?thesis .
  qed
  from m nw show ?thesis by blast
qed

text \<open>
  Claim C3. The first datagram emitted after entering Transmitting has bit 0 set, the
  datagram emitted on leaving Transmitting has bit 1 set, and no other datagram has
  either bit set. The sketch sets bit 0 by a test of the sequence counter
  (\<^verbatim>\<open>packetSequence == 1\<close> after the increment, line 205, commented as the start of
  the utterance), and the counter is a \<^verbatim>\<open>uint32_t\<close>: in the run \<open>long_utterance\<close>, one
  utterance that has sent \<open>2 ^ 32\<close> datagrams, the counter is 0 again, and the next frame,
  which finds the machine transmitting and leaves it transmitting, emits exactly one
  datagram whose flag byte is 0x01, although that datagram opens no utterance.
\<close>

theorem start_flag_recurs:
  "\<not> isl (run init long_utterance) \<and>
   isTransmitting (projr (run init long_utterance)) \<and>
   \<not> isl (frame_step frame900 (projr (run init long_utterance))) \<and>
   isTransmitting (projr (frame_step frame900 (projr (run init long_utterance)))) \<and>
   map (\<lambda>d. flags (header d))
     (emitted (projr (run init long_utterance))
        (projr (frame_step frame900 (projr (run init long_utterance))))) = [0x01]"
proof -
  from run_ok [OF state_ok_init [unfolded state_ok_def, THEN conjunct1] long_utterance_ok]
  obtain st where st: "run init long_utterance = Inr st"
    "view st = view_run (view init) (map voiced long_utterance)" by blast
  from long_utterance_view have v: "isTransmitting st" "packetSequence st = 0"
    unfolding st(2) [symmetric] by simp_all
  note ok = reachable_ok [OF st(1)]
  from ok have b: "buffers_ok st" by (simp add: state_ok_def)
  from frame_step_view [OF b frame_facts(1)] obtain st' where
    st': "frame_step frame900 st = Inr st'" "view st' = view_step (voiced frame900) (view st)"
    by blast
  have t': "isTransmitting st'"
    using st'(2) v(1) view_fields(1) [of st'] by (simp add: frame_facts view_step_voiced_tx)
  have ne: "fst frame900 \<noteq> []" by (simp add: frame900_def)
  from frame_step_emits [OF ok st'(1) ne] v t'
  have "map info (emitted st st') = [(0, 0x01)]" by simp
  then have "map (\<lambda>d. flags (header d)) (emitted st st') = [0x01]"
    by (cases "emitted st st'") (auto simp: info_def)
  with st(1) st'(1) v(1) t' show ?thesis by simp
qed

text \<open>
  Claim C6. In the datagrams that a run has sent, the first has sequence number 0, and
  each one either follows a final datagram and has number 0, or has the number of its
  predecessor plus one (in 32-bit arithmetic). While the machine transmits, its sequence
  counter is the successor of the number sent last and counts the datagrams of the
  utterance in progress. A frame that enters Transmitting resets the counter and emits
  the datagram numbered 0; every frame met in Transmitting emits exactly one datagram,
  numbered by the counter, and advances the counter by one; a frame that leaves the
  machine out of Transmitting emits nothing.
\<close>

theorem sequence_numbers_contiguous:
  assumes "run init hist = Inr st"
  shows
   "successively
      (\<lambda>p q. sequence (header q) = (if final_flag p then 0 else sequence (header p) + 1))
      (udp_out st) \<and>
    (udp_out st = [] \<or> sequence (header (hd (udp_out st))) = 0) \<and>
    (isTransmitting st \<longrightarrow>
       udp_out st \<noteq> [] \<and> \<not> final_flag (last (udp_out st)) \<and>
       packetSequence st = sequence (header (last (udp_out st))) + 1 \<and>
       packetSequence st = of_nat (length (current_utterance (map info (udp_out st))))) \<and>
    (\<forall>f st'. frame_step f st = Inr st' \<and> fst f \<noteq> [] \<longrightarrow>
       (\<not> isTransmitting st \<and> isTransmitting st' \<longrightarrow>
          (\<exists>d. emitted st st' = [d] \<and> sequence (header d) = 0) \<and> packetSequence st' = 1) \<and>
       (isTransmitting st \<longrightarrow>
          (\<exists>d. emitted st st' = [d] \<and> sequence (header d) = packetSequence st) \<and>
          packetSequence st' = packetSequence st + 1) \<and>
       (\<not> isTransmitting st \<and> \<not> isTransmitting st' \<longrightarrow> emitted st st' = []))"
proof -
  note ok = reachable_ok [OF assms]
  note tr = reachable_trace_ok [OF assms, unfolded trace_ok_def sent_view view_fields]
  have chain: "successively
      (\<lambda>p q. sequence (header q) = (if final_flag p then 0 else sequence (header p) + 1))
      (udp_out st)"
    using tr by (simp add: successively_map pair_follows_info)
  have first: "udp_out st = [] \<or> sequence (header (hd (udp_out st))) = 0"
    using tr by (cases "udp_out st") (simp_all add: info_def)
  have link: "udp_out st \<noteq> [] \<and> \<not> final_flag (last (udp_out st)) \<and>
       packetSequence st = sequence (header (last (udp_out st))) + 1 \<and>
       packetSequence st = of_nat (length (current_utterance (map info (udp_out st))))"
    if "isTransmitting st"
    using tr that by (auto simp: last_map info_def final_flag_def)
  have step: "(\<not> isTransmitting st \<and> isTransmitting st' \<longrightarrow>
          (\<exists>d. emitted st st' = [d] \<and> sequence (header d) = 0) \<and> packetSequence st' = 1) \<and>
       (isTransmitting st \<longrightarrow>
          (\<exists>d. emitted st st' = [d] \<and> sequence (header d) = packetSequence st) \<and>
          packetSequence st' = packetSequence st + 1) \<and>
       (\<not> isTransmitting st \<and> \<not> isTransmitting st' \<longrightarrow> emitted st st' = [])"
    if "frame_step f st = Inr st'" "fst f \<noteq> []" for f st'
  proof -
    note em = frame_step_emits [OF ok that]
    have a: "(\<exists>d. emitted st st' = [d] \<and> sequence (header d) = 0) \<and> packetSequence st' = 1"
      if "\<not> isTransmitting st" "isTransmitting st'"
      using em that map_info_single [of "emitted st st'" 0 "0x01"] by auto
    have b: "(\<exists>d. emitted st st' = [d] \<and> sequence (header d) = packetSequence st) \<and>
          packetSequence st' = packetSequence st + 1"
      if t: "isTransmitting st"
    proof (cases "isTransmitting st'")
      case True
      with em t map_info_single [of "emitted st st'" "packetSequence st"
          "if packetSequence st = 0 then 0x01 else 0"]
      show ?thesis by auto
    next
      case False
      with em t map_info_single [of "emitted st st'" "packetSequence st"
          "(if packetSequence st = 0 then 0x01 else 0) OR 0x02"]
      show ?thesis by auto
    qed
    have c: "emitted st st' = []" if "\<not> isTransmitting st" "\<not> isTransmitting st'"
      using em that by simp
    from a b c show ?thesis by blast
  qed
  from chain first link step show ?thesis by blast
qed

theorem sequence_numbers_contiguous_witness:
  "map (\<lambda>d. sequence (header d)) (udp_out ended) = [0, 1, 2, 3, 4, 5, 6, 7, 8, 9, 10] \<and>
   successively
      (\<lambda>p q. sequence (header q) = (if final_flag p then 0 else sequence (header p) + 1))
      (udp_out ended) \<and>
   packetSequence quiet9 = sequence (header (last (udp_out quiet9))) + 1 \<and>
   (\<exists>d. emitted quiet9 ended = [d] \<and> sequence (header d) = packetSequence quiet9) \<and>
   (\<exists>d. emitted armed2 talk3 = [d] \<and> sequence (header d) = 0)"
proof -
  have r: "run init ([frame900, frame900, frame900] @ replicate 10 frame200) = Inr ended"
  proof -
    have "\<not> isl (run init ([frame900, frame900, frame900] @ replicate 10 frame200))"
      by code_simp
    then show ?thesis unfolding ended_def by simp
  qed
  have m: "map (\<lambda>d. sequence (header d)) (udp_out ended) = [0, 1, 2, 3, 4, 5, 6, 7, 8, 9, 10]"
    unfolding ended_def by code_simp
  from sequence_numbers_contiguous [OF r]
  have a: "successively
      (\<lambda>p q. sequence (header q) = (if final_flag p then 0 else sequence (header p) + 1))
      (udp_out ended)" by blast
  from sequence_numbers_contiguous [OF run_quiet9] scenario_facts(3)
  have b: "packetSequence quiet9 = sequence (header (last (udp_out quiet9))) + 1" by blast
  from sequence_numbers_contiguous [OF run_quiet9] step_quiet9 scenario_facts(3,6)
  have c: "\<exists>d. emitted quiet9 ended = [d] \<and> sequence (header d) = packetSequence quiet9"
    by blast
  from sequence_numbers_contiguous [OF run_armed2] step_armed2 scenario_facts(1,2,5)
  have d: "\<exists>d. emitted armed2 talk3 = [d] \<and> sequence (header d) = 0"
    by blast
  from m a b c d show ?thesis by blast
qed

text \<open>
  Claim C8, as amended. Whenever a frame takes the machine from Transmitting to not
  transmitting, the frame is silent and has brought the silence counter to
  \<open>SILENCE_FRAMES\<close>, exactly one datagram is emitted and it carries bit 1, and afterwards
  the voice counter is 0 and the silence counter is \<open>SILENCE_FRAMES\<close> (it is not reset; the
  next voiced frame clears it).
\<close>

theorem final_packet_on_silence:
  assumes "run init hist = Inr st" "frame_step f st = Inr st'"
    "isTransmitting st" "\<not> isTransmitting st'"
  shows "silent f \<and> silenceCounter st' = SILENCE_FRAMES \<and> voiceCounter st' = 0 \<and>
         (\<exists>d. emitted st st' = [d] \<and> final_flag d) \<and>
         udp_out st' = udp_out st @ emitted st st'"
proof -
  note ok = reachable_ok [OF assms(1)]
  from ok have b: "buffers_ok st" and c: "counters_ok (view st)" by (simp_all add: state_ok_def)
  have ne: "fst f \<noteq> []"
  proof
    assume "fst f = []"
    with frame_step_empty [of st f] b assms(2) have "st' = st" by (simp add: buffers_ok_def)
    with assms(3,4) show False by simp
  qed
  from frame_step_sound [OF b assms(2)] ne
  have v: "view st' = view_step (voiced f) (view st)" by simp
  have "tx (view st)" "\<not> tx (view_step (voiced f) (view st))"
    using assms(3,4) unfolding v [symmetric] by simp_all
  with view_step_transition [OF c, of "voiced f"] have s: "silent f" by (simp add: silent_def)
  from frame_step_emits [OF ok assms(2) ne] assms(3,4)
  have e: "map info (emitted st st') =
      [(packetSequence st, (if packetSequence st = 0 then 0x01 else 0) OR 0x02)]"
    "voiceCounter st' = 0" "silenceCounter st' = SILENCE_FRAMES" by simp_all
  from map_info_single [OF e(1)] obtain d where
    d: "emitted st st' = [d]"
       "flags (header d) = (if packetSequence st = 0 then 0x01 else 0) OR 0x02" by blast
  from final_flag_iff(2) [OF d(2)] d(1) have "\<exists>d. emitted st st' = [d] \<and> final_flag d" by simp
  with s e(2,3) udp_out_frame_step [OF b assms(2)] show ?thesis by simp
qed

theorem final_packet_on_silence_witness:
  "silent frame200 \<and> silenceCounter ended = SILENCE_FRAMES \<and> voiceCounter ended = 0 \<and>
   (\<exists>d. emitted quiet9 ended = [d] \<and> final_flag d) \<and>
   udp_out ended = udp_out quiet9 @ emitted quiet9 ended"
  by (rule final_packet_on_silence [OF run_quiet9 step_quiet9 scenario_facts(3,4)])

text \<open>
  The claim as stated fails on the tenth silent frame after three voiced ones: the
  utterance ends and the silence counter is left at 10.
\<close>

theorem silence_counter_not_reset:
  "run init ([frame900, frame900, frame900] @ replicate 9 frame200) = Inr quiet9 \<and>
   frame_step frame200 quiet9 = Inr ended \<and>
   isTransmitting quiet9 \<and> \<not> isTransmitting ended \<and> silenceCounter ended = 10 \<and>
   silenceCounter ended \<noteq> 0"
proof -
  have "silenceCounter ended = 10" unfolding ended_def by code_simp
  with run_quiet9 step_quiet9 scenario_facts(3,4) show ?thesis by simp
qed

section \<open>The scenario of thirteen frames\<close>

lemma voiced_by_energy: "voiced f = (800 < frame_energy f)"
  by (simp add: voiced_def ENERGY_THRESHOLD_def)

lemma map_voiced_by_energy: "map voiced fs = map (\<lambda>x. 800 < x) (map frame_energy fs)"
  by (induction fs) (simp_all add: voiced_by_energy)

lemma scenario_classes:
  "map (\<lambda>x. 800 < x) (replicate 3 900 @ replicate 10 (200::32 word)) =
     replicate 3 True @ replicate 10 False"
  by simp

lemma scenario_view_tx:
  "\<not> tx (view_run (view init) (replicate 3 True @ replicate 10 False))"
  by code_simp

lemma scenario_view_sent:
  "sent (view_run (view init) (replicate 3 True @ replicate 10 False)) =
     [(0, 0x01), (1, 0), (2, 0), (3, 0), (4, 0), (5, 0), (6, 0), (7, 0), (8, 0), (9, 0),
      (10, 0x02)]"
  by code_simp

lemma eleven_packets:
  assumes "map info ds =
     [(0, 0x01), (1, 0), (2, 0), (3, 0), (4, 0), (5, 0), (6, 0), (7, 0), (8, 0), (9, 0),
      (10, 0x02)]"
  shows "length ds = 11"
proof -
  have "length (map info ds) = 11" unfolding assms by simp
  then show ?thesis by simp
qed

lemma scenario_ok: "list_all frame_ok scenario"
  unfolding scenario_def by (simp add: frame_facts list_all_iff)

lemma scenario_energy: "map frame_energy scenario = replicate 3 900 @ replicate 10 200"
proof -
  have "frame_energy frame900 = 900" "frame_energy frame200 = 200" by code_simp+
  then show ?thesis unfolding scenario_def by simp
qed

lemma run_scenario: "\<not> isl (run init scenario)"
  by code_simp

lemma run_scenario_count: "length (udp_out (projr (run init scenario))) = 11"
  by code_simp

lemma scenario_energy_list:
  "replicate 3 900 @ replicate 10 (200::32 word) =
     [900, 900, 900, 200, 200, 200, 200, 200, 200, 200, 200, 200, 200]"
  by (simp add: numeral_eq_Suc)

text \<open>
  Claim C4, as amended. With the thresholds of the sketch (energy 800, three voiced
  frames, ten silent frames), any thirteen well-formed frames whose energies are 900,
  900, 900 and then ten times 200 make one utterance of exactly eleven datagrams: the
  first two voiced frames send nothing, the third sends the datagram numbered 0 with the
  start flag, the first nine silent frames send the datagrams 1 to 9 without flags, and
  the tenth silent frame sends datagram 10 with the final flag and ends the utterance.
\<close>

theorem scenario_packets:
  assumes "list_all frame_ok fs"
    and "map frame_energy fs = replicate 3 900 @ replicate 10 200"
  shows "\<exists>st. run init fs = Inr st \<and> \<not> isTransmitting st \<and>
           map info (udp_out st) =
             [(0, 0x01), (1, 0), (2, 0), (3, 0), (4, 0), (5, 0), (6, 0), (7, 0), (8, 0),
              (9, 0), (10, 0x02)] \<and>
           length (udp_out st) = 11"
proof -
  have m: "map voiced fs = replicate 3 True @ replicate 10 False"
    unfolding map_voiced_by_energy assms(2) by (rule scenario_classes)
  from run_ok [OF state_ok_init [unfolded state_ok_def, THEN conjunct1] assms(1)]
  obtain st where st: "run init fs = Inr st" "view st = view_run (view init) (map voiced fs)"
    by blast
  have "\<not> tx (view st)" unfolding st(2) m by (rule scenario_view_tx)
  then have t: "\<not> isTransmitting st" by simp
  have "sent (view st) =
     [(0, 0x01), (1, 0), (2, 0), (3, 0), (4, 0), (5, 0), (6, 0), (7, 0), (8, 0), (9, 0),
      (10, 0x02)]" unfolding st(2) m by (rule scenario_view_sent)
  then have s: "map info (udp_out st) =
     [(0, 0x01), (1, 0), (2, 0), (3, 0), (4, 0), (5, 0), (6, 0), (7, 0), (8, 0), (9, 0),
      (10, 0x02)]" unfolding sent_view .
  show ?thesis
  proof (intro exI conjI)
    show "run init fs = Inr st" by (rule st(1))
    show "\<not> isTransmitting st" by (rule t)
    show "map info (udp_out st) =
     [(0, 0x01), (1, 0), (2, 0), (3, 0), (4, 0), (5, 0), (6, 0), (7, 0), (8, 0), (9, 0),
      (10, 0x02)]" by (rule s)
    show "length (udp_out st) = 11" by (rule eleven_packets [OF s])
  qed
qed

theorem scenario_packets_witness:
  "\<exists>st. run init scenario = Inr st \<and> \<not> isTransmitting st \<and>
           map info (udp_out st) =
             [(0, 0x01), (1, 0), (2, 0), (3, 0), (4, 0), (5, 0), (6, 0), (7, 0), (8, 0),
              (9, 0), (10, 0x02)] \<and>
           length (udp_out st) = 11"
  by (rule scenario_packets [OF scenario_ok scenario_energy])

text \<open>The claim as stated fails: the scenario sends eleven datagrams, not four.\<close>

theorem scenario_not_four_packets:
  "map frame_energy scenario =
     [900, 900, 900, 200, 200, 200, 200, 200, 200, 200, 200, 200, 200] \<and>
   \<not> isl (run init scenario) \<and>
   length (udp_out (projr (run init scenario))) = 11 \<and>
   length (udp_out (projr (run init scenario))) \<noteq> 4"
proof -
  have e: "map frame_energy scenario =
     [900, 900, 900, 200, 200, 200, 200, 200, 200, 200, 200, 200, 200]"
    unfolding scenario_energy by (rule scenario_energy_list)
  have n: "length (udp_out (projr (run init scenario))) \<noteq> 4"
    unfolding run_scenario_count by simp
  show ?thesis by (intro conjI e run_scenario run_scenario_count n)
qed

section \<open>Size and content of the datagrams\<close>

lemma unat_count:
  assumes "0 \<le> x"
  shows "unat (word_of_int (min x 240) :: 16 word) = nat (min x 240)"
proof -
  have "0 \<le> min x 240" "min x 240 < 2 ^ 16" using assms by simp_all
  then have "(min x 240) mod 2 ^ LENGTH(16) = min x 240" by simp
  then show ?thesis by (simp add: unat_eq_nat_uint uint_word_of_int)
qed

lemma length_buffer_bytes: "length (buffer_bytes buf) = 2 * length buf"
  by (induction buf) (simp_all add: buffer_bytes_def sample_bytes_def)

lemma buffer_bytes_append: "buffer_bytes (xs @ ys) = buffer_bytes xs @ buffer_bytes ys"
  by (simp add: buffer_bytes_def)

lemma buffer_bytes_take: "buffer_bytes (take k xs) = take (2 * k) (buffer_bytes xs)"
proof (induction xs arbitrary: k)
  case Nil
  then show ?case by (simp add: buffer_bytes_def)
next
  case (Cons x xs)
  show ?case
  proof (cases k)
    case 0
    then show ?thesis by (simp add: buffer_bytes_def)
  next
    case (Suc j)
    have "buffer_bytes (take j xs) = take (2 * j) (buffer_bytes xs)" by (rule Cons.IH)
    then show ?thesis unfolding Suc by (simp add: buffer_bytes_def sample_bytes_def)
  qed
qed

lemma built_packet_count:
  "0 \<le> samplesRead s \<Longrightarrow>
   unat (samples_count (header (built_packet e fin s))) = nat (min (samplesRead s) 240)"
  by (simp add: built_packet_def Let_def PACKET_SIZE_def unat_count)

lemma built_packet_payload:
  "payload (built_packet e fin s) =
     take (2 * unat (samples_count (header (built_packet e fin s)))) (buffer_bytes (sendBuffer s))"
  by (simp add: built_packet_def Let_def mult.commute)

lemma built_packet_fits:
  assumes "0 \<le> samplesRead s" "length (sendBuffer s) = 240"
  shows "packet_fits (built_packet e fin s)"
proof -
  let ?n = "unat (samples_count (header (built_packet e fin s)))"
  have n: "?n \<le> 240" unfolding built_packet_count [OF assms(1)] by simp
  have "length (payload (built_packet e fin s)) = min 480 (2 * ?n)"
    unfolding built_packet_payload by (simp add: length_buffer_bytes assms(2))
  also have "\<dots> = 2 * ?n" using n by simp
  finally show ?thesis using n by (simp add: packet_fits_def)
qed

lemma header_bytes_length: "length (header_bytes h) = 18"
  by (simp add: header_bytes_def le32_def le16_def)


lemma fits_process:
  assumes "buffers_ok s" "list_all packet_fits (udp_out s)"
  shows "list_all packet_fits (udp_out (transmit_frame e (vad_update e v s)))"
proof -
  from assms(1) have sr: "0 \<le> samplesRead s" and sb: "length (sendBuffer s) = 240"
    and ab: "length (audioBuffer s) = 512"
    by (simp_all add: buffers_ok_def PACKET_SIZE_def BUFFER_SIZE_def)
  have a: "list_all packet_fits (udp_out (vad_update e v s))"
    unfolding udp_out_vad_update using assms(2) sr sb by (simp add: built_packet_fits)
  let ?k = "nat (min (samplesRead s) (PACKET_SIZE div 2))"
  have "?k \<le> 240" by (simp add: PACKET_SIZE_def)
  then have "length (take ?k (audioBuffer s) @ drop ?k (sendBuffer s)) = 240"
    using sb ab by simp
  then show ?thesis
    unfolding udp_out_transmit_frame using a sr by (simp add: built_packet_fits)
qed

lemma fits_frame_step:
  assumes "buffers_ok st" "list_all packet_fits (udp_out st)" "frame_step f st = Inr st'"
  shows "list_all packet_fits (udp_out st')"
proof (cases "fst f = []")
  case True
  then have "st' = st" using assms frame_step_empty [of st f] by (simp add: buffers_ok_def)
  then show ?thesis using assms(2) by simp
next
  case False
  then have ok: "frame_ok f" using assms(3) by (rule frame_step_Inr_ok [rotated])
  let ?cap = "st\<lparr>audioBuffer := PDM_read (audioBuffer st) (fst f),
                samplesRead := int (length (fst f)) div 2, audioReady := False\<rparr>"
  from frame_step_ok [OF assms(1) ok] assms(3)
  have st': "st' = transmit_frame (snd f) (vad_update (snd f) (voiced f) ?cap)" by simp
  have "list_all packet_fits (udp_out ?cap)" using assms(2) by simp
  from fits_process [OF buffers_ok_captured [OF assms(1) ok] this]
  show ?thesis unfolding st' .
qed

lemma fits_run:
  "state_ok st \<Longrightarrow> list_all packet_fits (udp_out st) \<Longrightarrow> run st fs = Inr st' \<Longrightarrow>
   list_all packet_fits (udp_out st')"
proof (induction fs arbitrary: st)
  case Nil
  then show ?case by simp
next
  case (Cons f fs)
  from Cons.prems(3) obtain st1 where s: "frame_step f st = Inr st1" "run st1 fs = Inr st'"
    by (auto split: sum.splits)
  from Cons.prems(1) have b: "buffers_ok st" by (simp add: state_ok_def)
  from Cons.IH [OF state_ok_step [OF Cons.prems(1) s(1)]
      fits_frame_step [OF b Cons.prems(2) s(1)] s(2)]
  show ?case .
qed

lemma reachable_fits: "run init hist = Inr st \<Longrightarrow> list_all packet_fits (udp_out st)"
  by (rule fits_run [OF state_ok_init]) (simp_all add: init_def)

lemma talk3_count: "unat (samples_count (header (last (udp_out talk3)))) = 1"
  unfolding talk3_def by code_simp

lemma vad_update_transmitting:
  "isTransmitting (vad_update e v s) \<Longrightarrow>
   udp_out (vad_update e v s) = udp_out s \<and>
   packetSequence (vad_update e v s) = (if isTransmitting s then packetSequence s else 0)"
  by (auto simp: vad_update_def Let_def split: if_splits)

lemma transmit_frame_fields [simp]:
  "isTransmitting (transmit_frame e s) = isTransmitting s"
  "packetSequence (transmit_frame e s) = (if isTransmitting s then packetSequence s + 1 else packetSequence s)"
  by (simp_all add: transmit_frame_def Let_def)

lemma captured_payload:
  assumes "length (audioBuffer st) = 512" "length sb = 240" "frame_ok (b, e)"
  shows "take (2 * min (length b div 2) 240)
           (buffer_bytes (take (min (length b div 2) 240) (PDM_read (audioBuffer st) b)
                          @ drop (min (length b div 2) 240) sb))
         = take (2 * min (length b div 2) 240) b"
proof -
  let ?n = "length b div 2"
  let ?k = "min ?n 240"
  have "length b \<le> 1024" using assms(3) by (simp add: frame_ok_def BUFFER_SIZE_def)
  then have "?n \<le> 512" by presburger
  then have fit: "?n \<le> length (audioBuffer st)" unfolding assms(1) .
  have "take ?k (PDM_read (audioBuffer st) b) = take ?k (take ?n (PDM_read (audioBuffer st) b))"
    by simp
  also have "\<dots> = take ?k (pdm_samples b)"
    unfolding take_PDM_read [OF fit] ..
  finally have t: "take ?k (PDM_read (audioBuffer st) b) = take ?k (pdm_samples b)" .
  have l: "length (buffer_bytes (take ?k (pdm_samples b))) = 2 * ?k"
    by (simp add: length_buffer_bytes length_pdm_samples)
  have "take (2 * ?k) (buffer_bytes (take ?k (pdm_samples b) @ drop ?k sb))
        = buffer_bytes (take ?k (pdm_samples b))"
    unfolding buffer_bytes_append using l by simp
  also have "\<dots> = take (2 * ?k) (take (2 * ?n) b)"
    unfolding buffer_bytes_take buffer_bytes_pdm_samples ..
  also have "\<dots> = take (2 * ?k) b" by simp
  finally show ?thesis unfolding t .
qed

lemma transmitted_frame_packet:
  assumes "state_ok st" "frame_step f st = Inr st'" "fst f \<noteq> []" "isTransmitting st'"
  shows "\<exists>d. emitted st st' = [d] \<and>
           unat (samples_count (header d)) = min (length (fst f) div 2) 240 \<and>
           payload d = take (2 * min (length (fst f) div 2) 240) (fst f) \<and>
           sequence (header d) = (if isTransmitting st then packetSequence st else 0) \<and>
           packetSequence st' = sequence (header d) + 1"
proof -
  obtain b e where f: "f = (b, e)" by (cases f)
  from assms(1) have bo: "buffers_ok st" by (simp add: state_ok_def)
  from assms(2,3) have ok: "frame_ok f" by (rule frame_step_Inr_ok)
  let ?cap = "st\<lparr>audioBuffer := PDM_read (audioBuffer st) b,
                samplesRead := int (length b) div 2, audioReady := False\<rparr>"
  let ?vu = "vad_update e (voiced f) ?cap"
  from frame_step_ok [OF bo ok] assms(2)
  have st': "st' = transmit_frame e ?vu" by (simp add: f)
  from assms(4) have tv: "isTransmitting ?vu" unfolding st' by simp
  from vad_update_transmitting [OF tv]
  have u: "udp_out ?vu = udp_out st"
    and q: "packetSequence ?vu = (if isTransmitting st then packetSequence st else 0)"
    by simp_all
  let ?k = "nat (min (samplesRead ?vu) (PACKET_SIZE div 2))"
  let ?s = "?vu\<lparr>sendBuffer := take ?k (audioBuffer ?vu) @ drop ?k (sendBuffer ?vu)\<rparr>"
  let ?d = "built_packet e False ?s"
  have out: "udp_out st' = udp_out st @ [?d]"
    unfolding st' udp_out_transmit_frame u using tv by simp
  then have em: "emitted st st' = [?d]" by (simp add: emitted_def)
  have sr: "samplesRead ?s = int (length b) div 2" by simp
  have k: "?k = min (length b div 2) 240"
    by (simp add: PACKET_SIZE_def nat_div_distrib)
  have nn: "0 \<le> samplesRead ?s" by simp
  have cnt: "unat (samples_count (header ?d)) = min (length b div 2) 240"
    unfolding built_packet_count [OF nn] sr using k by (simp add: PACKET_SIZE_def)
  from bo have lens: "length (audioBuffer st) = 512" "length (sendBuffer st) = 240"
    by (simp_all add: buffers_ok_def BUFFER_SIZE_def PACKET_SIZE_def)
  have sbuf: "sendBuffer ?s = take (min (length b div 2) 240) (PDM_read (audioBuffer st) b)
                 @ drop (min (length b div 2) 240) (sendBuffer st)"
    unfolding k [symmetric] by simp
  have pay: "payload ?d = take (2 * min (length b div 2) 240) b"
    unfolding built_packet_payload cnt sbuf
    by (rule captured_payload [OF lens ok [unfolded f]])
  have sq: "sequence (header ?d) = (if isTransmitting st then packetSequence st else 0)"
    using q by (simp add: built_packet_def Let_def)
  have nx: "packetSequence st' = sequence (header ?d) + 1"
    unfolding st' sq using tv q by simp
  show ?thesis
    unfolding f fst_conv by (rule exI [of _ ?d]) (intro conjI em cnt pay sq nx)
qed

lemma view_step_stays:
  assumes "tx v" "sc v = 0"
  shows "tx (view_step b v)"
proof (cases b)
  case True
  then show ?thesis using assms(1) by (simp add: view_step_voiced_tx)
next
  case False
  have "sc v < 10" "sc v \<noteq> 9" using assms(2) by simp_all
  from view_step_silent_tx [OF assms(1) this] False assms(1) show ?thesis by simp
qed

lemma talk3_silence: "silenceCounter talk3 = 0"
  unfolding talk3_def by code_simp

lemma frame241_ok: "frame_ok frame241" "fst frame241 \<noteq> []" "length (fst frame241) div 2 = 241"
  by (simp_all add: frame_ok_def frame241_def BUFFER_SIZE_def)

text \<open>
  Claim C5, as amended. Every buffer-ready frame after which the machine transmits is
  sent in exactly one datagram, whatever the number of its samples: the datagram
  declares \<open>min n 240\<close> samples for a frame of \<open>n\<close> samples and carries the first
  \<open>2 * min n 240\<close> bytes of the capture, so that the samples beyond \<open>PACKET_SIZE / 2\<close> are
  not sent; it is numbered by the sequence counter (0 on entering Transmitting), which
  advances by one.
\<close>

theorem frame_sent_in_one_packet:
  assumes "run init hist = Inr st" "frame_step f st = Inr st'" "fst f \<noteq> []"
    "isTransmitting st'"
  shows "\<exists>d. emitted st st' = [d] \<and>
           unat (samples_count (header d)) = min (length (fst f) div 2) 240 \<and>
           payload d = take (2 * min (length (fst f) div 2) 240) (fst f) \<and>
           sequence (header d) = (if isTransmitting st then packetSequence st else 0) \<and>
           packetSequence st' = sequence (header d) + 1"
  by (rule transmitted_frame_packet [OF reachable_ok [OF assms(1)] assms(2-4)])

theorem frame_sent_in_one_packet_witness:
  "\<exists>d. emitted armed2 talk3 = [d] \<and>
       unat (samples_count (header d)) = min (length (fst frame900) div 2) 240 \<and>
       payload d = take (2 * min (length (fst frame900) div 2) 240) (fst frame900) \<and>
       sequence (header d) = (if isTransmitting armed2 then packetSequence armed2 else 0) \<and>
       packetSequence talk3 = sequence (header d) + 1"
  by (rule frame_sent_in_one_packet [OF run_armed2 step_armed2 scenario_facts(5) scenario_facts(2)])

text \<open>
  The claim as stated fails on a frame of 241 samples met in Transmitting: one datagram
  of 240 samples is sent and one sequence number used.
\<close>

theorem long_frame_not_split:
  "length (fst frame241) div 2 = 241 \<and>
   isTransmitting talk3 \<and>
   \<not> isl (frame_step frame241 talk3) \<and>
   isTransmitting (projr (frame_step frame241 talk3)) \<and>
   map (\<lambda>d. unat (samples_count (header d)))
     (emitted talk3 (projr (frame_step frame241 talk3))) = [240] \<and>
   packetSequence (projr (frame_step frame241 talk3)) = packetSequence talk3 + 1"
proof -
  note ok = reachable_ok [OF run_talk3]
  from ok have b: "buffers_ok talk3" by (simp add: state_ok_def)
  from frame_step_view [OF b frame241_ok(1)] obtain st' where
    st': "frame_step frame241 talk3 = Inr st'"
         "view st' = view_step (voiced frame241) (view talk3)"
    by blast
  have "tx (view st')"
    unfolding st'(2) using scenario_facts(2) talk3_silence by (intro view_step_stays) simp_all
  then have t: "isTransmitting st'" by simp
  from transmitted_frame_packet [OF ok st'(1) frame241_ok(2) t] obtain d where
    d: "emitted talk3 st' = [d]"
       "unat (samples_count (header d)) = min (length (fst frame241) div 2) 240"
       "sequence (header d) = (if isTransmitting talk3 then packetSequence talk3 else 0)"
       "packetSequence st' = sequence (header d) + 1"
    by blast
  have c: "map (\<lambda>d. unat (samples_count (header d))) (emitted talk3 st') = [240]"
    unfolding d(1) using d(2) by (simp add: frame241_ok(3))
  have n: "packetSequence st' = packetSequence talk3 + 1"
    unfolding d(4) d(3) using scenario_facts(2) by simp
  have p: "projr (frame_step frame241 talk3) = st'" unfolding st'(1) by simp
  show ?thesis
    unfolding p using frame241_ok(3) scenario_facts(2) st'(1) t c n by simp
qed

lemma run_snoc:
  "run st (fs @ [f]) = (case run st fs of Inl x \<Rightarrow> Inl x | Inr st1 \<Rightarrow> frame_step f st1)"
  by (induction fs arbitrary: st) (simp_all split: sum.splits)

lemma frame512_ok:
  "frame_ok frame512" "fst frame512 \<noteq> []" "length (fst frame512) div 2 = 512"
  by (simp_all add: frame_ok_def frame512_def BUFFER_SIZE_def)

text \<open>
  Claim C7, as amended. Every datagram of a run, whatever the sample counts of the
  frames (any capture that \<^verbatim>\<open>audioBuffer\<close> holds, up to 512 samples), declares at most
  \<open>PACKET_SIZE / 2 = 240\<close> samples, carries twice as many payload bytes, and measures on
  the wire the 18 bytes of the packed header plus the payload: at most
  \<open>18 + PACKET_SIZE = 498\<close> bytes, within any transmission unit of at least that size. The
  sketch names no transmission unit; it is the parameter \<open>mtu\<close>.
\<close>

theorem packets_fit:
  assumes "run init hist = Inr st" "d \<in> set (udp_out st)"
  shows "unat (samples_count (header d)) \<le> nat (PACKET_SIZE div 2) \<and>
         length (payload d) = 2 * unat (samples_count (header d)) \<and>
         length (wire_bytes d) = 18 + 2 * unat (samples_count (header d)) \<and>
         length (wire_bytes d) \<le> 18 + nat PACKET_SIZE \<and>
         (18 + nat PACKET_SIZE \<le> mtu \<longrightarrow> length (wire_bytes d) \<le> mtu)"
proof -
  from reachable_fits [OF assms(1)] assms(2) have "packet_fits d"
    by (simp add: list_all_iff)
  then have n: "unat (samples_count (header d)) \<le> 240"
    and p: "length (payload d) = 2 * unat (samples_count (header d))"
    by (simp_all add: packet_fits_def)
  have w: "length (wire_bytes d) = 18 + 2 * unat (samples_count (header d))"
    by (simp add: wire_bytes_def header_bytes_length p)
  from n p w show ?thesis by (simp add: PACKET_SIZE_def)
qed

theorem packets_fit_witness:
  "\<exists>st d. run init ([frame900, frame900, frame900] @ [frame512]) = Inr st \<and>
          d \<in> set (udp_out st) \<and>
          length (fst frame512) div 2 = 512 \<and>
          unat (samples_count (header d)) = 240 \<and>
          length (payload d) = 480 \<and>
          length (wire_bytes d) = 498 \<and>
          length (wire_bytes d) \<le> 1500"
proof -
  note ok = reachable_ok [OF run_talk3]
  from ok have b: "buffers_ok talk3" by (simp add: state_ok_def)
  from frame_step_view [OF b frame512_ok(1)] obtain st where
    st: "frame_step frame512 talk3 = Inr st"
        "view st = view_step (voiced frame512) (view talk3)"
    by blast
  have r: "run init ([frame900, frame900, frame900] @ [frame512]) = Inr st"
    unfolding run_snoc run_talk3 using st(1) by simp
  have "tx (view st)"
    unfolding st(2) using scenario_facts(2) talk3_silence by (intro view_step_stays) simp_all
  then have t: "isTransmitting st" by simp
  from transmitted_frame_packet [OF ok st(1) frame512_ok(2) t] obtain d where
    d: "emitted talk3 st = [d]"
       "unat (samples_count (header d)) = min (length (fst frame512) div 2) 240"
    by blast
  have c: "unat (samples_count (header d)) = 240"
    unfolding d(2) frame512_ok(3) by simp
  have "udp_out st = udp_out talk3 @ [d]"
    using udp_out_frame_step [OF b st(1)] d(1) by simp
  then have m: "d \<in> set (udp_out st)" by simp
  from packets_fit [OF r m, of 1500] c
  have p: "length (payload d) = 480" and w: "length (wire_bytes d) = 498"
    and u: "length (wire_bytes d) \<le> 1500"
    by (simp_all add: PACKET_SIZE_def)
  show ?thesis
    by (rule exI [of _ st], rule exI [of _ d]) (intro conjI r m frame512_ok(3) c p w u)
qed

text \<open>
  The claim as stated fails on the size of the header: the packed \<^verbatim>\<open>AudioPacket\<close> has
  18 bytes, so a datagram of one sample has 20 bytes, not \<open>16 + 2\<close>.
\<close>

theorem header_is_18_bytes:
  "unat (samples_count (header (last (udp_out talk3)))) = 1 \<and>
   length (wire_bytes (last (udp_out talk3))) = 20 \<and>
   length (wire_bytes (last (udp_out talk3))) \<noteq>
     16 + 2 * unat (samples_count (header (last (udp_out talk3))))"
proof -
  note a = talk3_count
  have b: "length (wire_bytes (last (udp_out talk3))) = 20"
    unfolding talk3_def by code_simp
  show ?thesis unfolding a b by simp
qed

section \<open>Failed sends\<close>

lemma quiet_sendAudioData:
  "millis_send e = millis_send e' \<Longrightarrow>
   quiet (sendAudioData e fin st) = quiet (sendAudioData e' fin (quiet st))"
  by (simp add: quiet_def sendAudioData_def Let_def)

lemma quiet_vad_update:
  "millis_vad e = millis_vad e' \<Longrightarrow> millis_send e = millis_send e' \<Longrightarrow>
   quiet (vad_update e v st) = quiet (vad_update e' v (quiet st))"
  by (simp add: quiet_def vad_update_def sendAudioData_def Let_def)

lemma quiet_transmit_frame:
  "millis_send e = millis_send e' \<Longrightarrow> quiet st = quiet st' \<Longrightarrow>
   quiet (transmit_frame e st) = quiet (transmit_frame e' st')"
proof -
  assume m: "millis_send e = millis_send e'" and q: "quiet st = quiet st'"
  have f: "isTransmitting st = isTransmitting st'" "samplesRead st = samplesRead st'"
    "audioBuffer st = audioBuffer st'" "sendBuffer st = sendBuffer st'"
    using arg_cong [OF q, of isTransmitting] arg_cong [OF q, of samplesRead]
      arg_cong [OF q, of audioBuffer] arg_cong [OF q, of sendBuffer]
    by (simp_all add: quiet_def)
  have u: "quiet (st\<lparr>sendBuffer := x\<rparr>) = quiet (st'\<lparr>sendBuffer := x\<rparr>)" for x
    using q by (cases st, cases st') (simp add: quiet_def)
  show ?thesis
  proof (cases "isTransmitting st")
    case True
    let ?x = "take (nat (min (samplesRead st) (PACKET_SIZE div 2))) (audioBuffer st)
                @ drop (nat (min (samplesRead st) (PACKET_SIZE div 2))) (sendBuffer st)"
    have "quiet (sendAudioData e False (st\<lparr>sendBuffer := ?x\<rparr>)) =
          quiet (sendAudioData e' False (quiet (st\<lparr>sendBuffer := ?x\<rparr>)))"
      by (rule quiet_sendAudioData [OF m])
    also have "\<dots> = quiet (sendAudioData e' False (quiet (st'\<lparr>sendBuffer := ?x\<rparr>)))"
      unfolding u ..
    also have "\<dots> = quiet (sendAudioData e' False (st'\<lparr>sendBuffer := ?x\<rparr>))"
      by (rule quiet_sendAudioData [OF refl, symmetric])
    finally show ?thesis using True f by (simp add: transmit_frame_def Let_def)
  next
    case False
    then show ?thesis using f q by (simp add: transmit_frame_def)
  qed
qed

lemma quiet_idem: "quiet (quiet st) = quiet st"
  by (simp add: quiet_def)

lemma signal_energy_quiet: "signal_energy (quiet st) = signal_energy st"
  by (simp add: signal_energy_def quiet_def)

lemma quiet_process:
  assumes "millis_vad e = millis_vad e'" "millis_send e = millis_send e'"
  shows "map_sum id quiet (processAudioWithVAD e st) =
         map_sum id quiet (processAudioWithVAD e' (quiet st))"
proof (cases "signal_energy st")
  case (Inl x)
  then show ?thesis by (simp add: processAudioWithVAD_def signal_energy_quiet)
next
  case (Inr en)
  have "quiet (vad_update e v st) = quiet (vad_update e' v (quiet st))" for v
    by (rule quiet_vad_update [OF assms])
  from quiet_transmit_frame [OF assms(2) this] Inr
  show ?thesis by (simp add: processAudioWithVAD_def signal_energy_quiet Let_def)
qed

lemma onPDMdata_quiet: "onPDMdata b (quiet st) = map_sum id quiet (onPDMdata b st)"
  by (simp add: onPDMdata_def quiet_def Let_def)

lemma quiet_loop:
  assumes "millis_vad e = millis_vad e'" "millis_send e = millis_send e'"
  shows "map_sum id quiet (loop e st) = map_sum id quiet (loop e' (quiet st))"
proof (cases "audioReady st")
  case True
  have q: "quiet st\<lparr>audioReady := False\<rparr> = quiet (st\<lparr>audioReady := False\<rparr>)"
    by (simp add: quiet_def)
  from quiet_process [OF assms, of "st\<lparr>audioReady := False\<rparr>"] True
  show ?thesis by (simp add: loop_def q) (simp add: quiet_def)
next
  case False
  then show ?thesis by (simp add: loop_def quiet_def)
qed

lemma quiet_frame_step:
  assumes "same_inputs f f'"
  shows "map_sum id quiet (frame_step f st) = map_sum id quiet (frame_step f' (quiet st))"
proof -
  from assms have b: "fst f' = fst f" and m: "millis_vad (snd f) = millis_vad (snd f')"
    "millis_send (snd f) = millis_send (snd f')"
    by (simp_all add: same_inputs_def)
  show ?thesis
  proof (cases "onPDMdata (fst f) st")
    case (Inl x)
    then show ?thesis by (simp add: frame_step_def b onPDMdata_quiet)
  next
    case (Inr s1)
    with quiet_loop [OF m, of s1] show ?thesis
      by (simp add: frame_step_def b onPDMdata_quiet)
  qed
qed

lemma same_inputs_refl: "same_inputs f f"
  by (simp add: same_inputs_def)

lemma quiet_frame_step2:
  assumes "same_inputs f f'" "quiet st = quiet st'"
  shows "map_sum id quiet (frame_step f st) = map_sum id quiet (frame_step f' st')"
proof -
  have "map_sum id quiet (frame_step f st) = map_sum id quiet (frame_step f' (quiet st))"
    by (rule quiet_frame_step [OF assms(1)])
  also have "\<dots> = map_sum id quiet (frame_step f' (quiet st'))"
    unfolding assms(2) ..
  also have "\<dots> = map_sum id quiet (frame_step f' st')"
    by (rule quiet_frame_step [OF same_inputs_refl, symmetric])
  finally show ?thesis .
qed

lemma quiet_run:
  "list_all2 same_inputs fs fs' \<Longrightarrow> quiet st = quiet st' \<Longrightarrow>
   map_sum id quiet (run st fs) = map_sum id quiet (run st' fs')"
proof (induction fs fs' arbitrary: st st' rule: list_all2_induct)
  case Nil
  then show ?case by simp
next
  case (Cons f fs f' fs')
  note s = quiet_frame_step2 [OF Cons.hyps(1) Cons.prems]
  show ?case
  proof (cases "frame_step f st")
    case (Inl x)
    with s have "frame_step f' st' = Inl x" by (cases "frame_step f' st'") simp_all
    with Inl show ?thesis by simp
  next
    case (Inr s1)
    with s obtain s1' where r: "frame_step f' st' = Inr s1'" "quiet s1 = quiet s1'"
      by (cases "frame_step f' st'") simp_all
    from Cons.IH [OF r(2)] Inr r(1) show ?thesis by simp
  qed
qed

lemma talk_same_inputs: "list_all2 same_inputs talk_sent talk_lost"
  by (simp add: talk_sent_def talk_lost_def same_inputs_def env_fail_def env0_def
      frame900_def frame200_def)

text \<open>
  Claim C9. Whatever \<^verbatim>\<open>udp.endPacket()\<close> returns, \<open>sendAudioData\<close> advances the sequence
  counter by exactly one and hands exactly one datagram to the socket, the same datagram
  for either result; a failure adds one line to the console and changes nothing else of
  the state. Hence two runs over frames that differ only in the results of the sends end
  in the same fault or in states that differ only in the console log: no datagram is
  sent again and no utterance is cut short.
\<close>

theorem send_result_ignored:
  "packetSequence (sendAudioData e isFinal st) = packetSequence st + 1 \<and>
   udp_out (sendAudioData e isFinal st) = udp_out st @ [built_packet e isFinal st] \<and>
   built_packet (e\<lparr>udp_endPacket := r\<rparr>) isFinal st = built_packet e isFinal st \<and>
   serial_out (sendAudioData e isFinal st) =
     serial_out st @ (if udp_endPacket e = 0 then [UdpFailure] else []) \<and>
   quiet (sendAudioData (e\<lparr>udp_endPacket := r\<rparr>) isFinal st) =
     quiet (sendAudioData e isFinal st) \<and>
   (list_all2 same_inputs fs fs' \<longrightarrow>
      map_sum id quiet (run st fs) = map_sum id quiet (run st fs'))"
proof -
  have a: "built_packet (e\<lparr>udp_endPacket := r\<rparr>) isFinal st = built_packet e isFinal st"
    by (simp add: built_packet_def)
  have b: "quiet (sendAudioData (e\<lparr>udp_endPacket := r\<rparr>) isFinal st) =
     quiet (sendAudioData e isFinal st)"
    by (simp add: quiet_def sendAudioData_def Let_def)
  have c: "map_sum id quiet (run st fs) = map_sum id quiet (run st fs')"
    if "list_all2 same_inputs fs fs'"
    by (rule quiet_run [OF that refl])
  show ?thesis
    using a b c by (simp add: sendAudioData_udp_out sendAudioData_serial_out)
qed

theorem send_result_ignored_witness:
  "map_sum id quiet (run init talk_sent) = map_sum id quiet (run init talk_lost) \<and>
   serial_out (projr (run init talk_lost)) = [VoiceDetected, UdpFailure, UdpFailure] \<and>
   serial_out (projr (run init talk_sent)) = [VoiceDetected]"
proof -
  have a: "map_sum id quiet (run init talk_sent) = map_sum id quiet (run init talk_lost)"
    using send_result_ignored [of env0 False init 0 talk_sent talk_lost] talk_same_inputs
    by simp
  have b: "serial_out (projr (run init talk_lost)) = [VoiceDetected, UdpFailure, UdpFailure]"
    by code_simp
  have c: "serial_out (projr (run init talk_sent)) = [VoiceDetected]"
    by code_simp
  show ?thesis by (intro conjI a b c)
qed

section \<open>The sample count of a capture\<close>

text \<open>
  The sample count at a state that a run reaches: the capture callback sets the ready
  flag exactly when at least one byte is pending, the main loop does nothing unless the
  flag is set, and after a capture of at least two bytes (one whole sample) the sample
  count is at least 1. A frame divides by zero in the mean-energy computation exactly
  when its capture has one single byte.
\<close>

lemma capture_sample_count:
  assumes "run init hist = Inr st"
  shows "(\<forall>pdm st1. onPDMdata pdm st = Inr st1 \<longrightarrow>
            (audioReady st1 \<longleftrightarrow> pdm \<noteq> []) \<and> (2 \<le> length pdm \<longrightarrow> 1 \<le> samplesRead st1)) \<and>
         (\<forall>e. loop e st = Inr st) \<and>
         (\<forall>pdm e. frame_step (pdm, e) st = Inl DivisionByZero \<longleftrightarrow> length pdm = 1)"
proof -
  from reachable_ok [OF assms] have b: "buffers_ok st" by (simp add: state_ok_def)
  then have nr: "\<not> audioReady st" by (simp add: buffers_ok_def)
  have a: "(audioReady st1 \<longleftrightarrow> pdm \<noteq> []) \<and> (2 \<le> length pdm \<longrightarrow> 1 \<le> samplesRead st1)"
    if "onPDMdata pdm st = Inr st1" for pdm st1
    using that nr by (auto simp: onPDMdata_def Let_def split: if_splits)
  have l: "loop e st = Inr st" for e
    using nr by (simp add: loop_def)
  have d: "frame_step (pdm, e) st = Inl DivisionByZero \<longleftrightarrow> length pdm = 1" for pdm e
  proof -
    from frame_length_cases [of "(pdm, e)"]
    consider "pdm = []" | "length pdm = 1" | "frame_ok (pdm, e)"
      | "2 * BUFFER_SIZE < int (length pdm)" by auto
    then show ?thesis
    proof cases
      case 1
      with frame_step_empty [OF nr, of "(pdm, e)"] show ?thesis by simp
    next
      case 2
      with frame_step_one_byte [of "(pdm, e)" st] show ?thesis by simp
    next
      case 3
      with frame_step_view [OF b 3] show ?thesis by (auto simp: frame_ok_def)
    next
      case 4
      with frame_step_overrun [of "(pdm, e)" st] show ?thesis
        by (auto simp: BUFFER_SIZE_def)
    qed
  qed
  from a l d show ?thesis by blast
qed


end
